theory Spec2Isabelle
  imports Complex_Main
begin

section \<open>Python values used by the focus controller\<close>

text \<open>
  A Python \<^verbatim>\<open>str\<close> is the list of its code points, so that \<^verbatim>\<open>len\<close>, slicing and
  \<^verbatim>\<open>split\<close> count what Python counts (the stub prefix holds U+2022, which is one code
  point). Python \<^verbatim>\<open>int\<close> is \<^typ>\<open>int\<close>; Python \<^verbatim>\<open>float\<close> is idealised as \<^typ>\<open>real\<close>
  (no rounding, no overflow, no infinities or NaN).
\<close>

type_synonym str = "nat list"

definition ascii :: "string \<Rightarrow> str" where
  "ascii s = map of_char s"

text \<open>The code points for which \<^verbatim>\<open>str.isspace\<close> holds; \<^verbatim>\<open>split()\<close> and \<^verbatim>\<open>strip()\<close>
  without arguments use the same set.\<close>

definition isspace :: "nat \<Rightarrow> bool" where
  "isspace c \<longleftrightarrow>
     (9 \<le> c \<and> c \<le> 13) \<or> (28 \<le> c \<and> c \<le> 32) \<or> c = 133 \<or> c = 160 \<or> c = 5760 \<or>
     (8192 \<le> c \<and> c \<le> 8202) \<or> c = 8232 \<or> c = 8233 \<or> c = 8239 \<or> c = 8287 \<or> c = 12288"

text \<open>\<^verbatim>\<open>text.split()\<close>: the maximal runs of non-whitespace, in order. The second argument
  is the word being read.\<close>

fun split_aux :: "str \<Rightarrow> str \<Rightarrow> str list" where
  "split_aux [] cur = (if cur = [] then [] else [cur])"
| "split_aux (c # cs) cur =
     (if isspace c then (if cur = [] then split_aux cs [] else cur # split_aux cs [])
      else split_aux cs (cur @ [c]))"

definition py_split :: "str \<Rightarrow> str list" where
  "py_split s = split_aux s []"

text \<open>\<^verbatim>\<open>text.strip()\<close>.\<close>

definition py_strip :: "str \<Rightarrow> str" where
  "py_strip s = rev (dropWhile isspace (rev (dropWhile isspace s)))"

text \<open>\<^verbatim>\<open>sep.join(xs)\<close>.\<close>

fun py_join :: "str \<Rightarrow> str list \<Rightarrow> str" where
  "py_join sep [] = []"
| "py_join sep [x] = x"
| "py_join sep (x # y # ys) = x @ sep @ py_join sep (y # ys)"

text \<open>\<^verbatim>\<open>str(n)\<close> for an integer, as the f-string of the stub prefix formats the id.\<close>

fun str_nat :: "nat \<Rightarrow> str" where
  "str_nat n = (if n < 10 then [48 + n] else str_nat (n div 10) @ [48 + n mod 10])"

definition str_int :: "int \<Rightarrow> str" where
  "str_int i = (if i < 0 then 45 # str_nat (nat (- i)) else str_nat (nat i))"

text \<open>\<^verbatim>\<open>int(x)\<close> for a float: truncation towards zero. Python raises for a float
  that is infinite or NaN; reals have neither, so a product too large for a double
  (a \<^verbatim>\<open>default_compress_ratio\<close> such as \<^verbatim>\<open>inf\<close>, \<^verbatim>\<open>nan\<close> or \<^verbatim>\<open>1e308\<close>) is outside this
  model, and so is the error it raises in \<^verbatim>\<open>compress_item\<close>.\<close>

definition py_int :: "real \<Rightarrow> int" where
  "py_int x = (if 0 \<le> x then \<lfloor>x\<rfloor> else \<lceil>x\<rceil>)"

datatype py_error = KeyError

section \<open>token\_counter.py\<close>

text \<open>
  \<^verbatim>\<open>TokenCounter._enc\<close> is a tiktoken encoding or \<^verbatim>\<open>None\<close>. The encoding is external:
  it is a function from the text to the token list, \<^term>\<open>None\<close> where \<^verbatim>\<open>encode\<close>
  raises (the exception is caught by \<^verbatim>\<open>count\<close>, which then falls back).
\<close>

record TokenCounter =
  model_name :: str
  enc :: "(str \<Rightarrow> int list option) option"

definition count :: "TokenCounter \<Rightarrow> str \<Rightarrow> int" where
  "count c text =
     (if text = [] then 0
      else case (case enc c of None \<Rightarrow> None | Some e \<Rightarrow> e text) of
             Some toks \<Rightarrow> int (length toks)
           | None \<Rightarrow> max 1 (int (length (py_split text))))"

section \<open>utils.py\<close>

text \<open>\<^verbatim>\<open>cosine\<close>: the sum over \<^verbatim>\<open>zip(a, b)\<close>, which stops at the shorter list.\<close>

definition cosine :: "real list \<Rightarrow> real list \<Rightarrow> real" where
  "cosine a b = sum_list (map (\<lambda>(x, y). x * y) (zip a b))"

text \<open>The loop of \<^verbatim>\<open>truncate_to_tokens\<close>; \<^verbatim>\<open>break\<close> returns what was collected.\<close>

fun trunc_loop :: "TokenCounter \<Rightarrow> int \<Rightarrow> str list \<Rightarrow> str list \<Rightarrow> int \<Rightarrow> str list" where
  "trunc_loop c target_tokens [] out used = out"
| "trunc_loop c target_tokens (w # ws) out used =
     (let need = count c w in
      if used + need > target_tokens then out
      else trunc_loop c target_tokens ws (out @ [w]) (used + need))"

definition truncate_to_tokens :: "str \<Rightarrow> int \<Rightarrow> TokenCounter \<Rightarrow> str" where
  "truncate_to_tokens text target_tokens c =
     py_join [32] (trunc_loop c target_tokens (py_split text) [] 0)"

section \<open>focus.py: data\<close>

datatype Fidelity = FULL | COMPRESSED | PLACEHOLDER

text \<open>\<^verbatim>\<open>MemoryItem\<close>. The field \<^verbatim>\<open>id\<close> is \<open>item_id\<close> here; \<^verbatim>\<open>created_at_s\<close> (the wall
  clock at creation, never read) is left out.\<close>

record MemoryItem =
  item_id :: int
  role :: str
  content :: str
  token_len :: int
  embedding :: "real list option"
  compression_state :: Fidelity
  compressed_text :: "str option"
  last_score :: real

record FocusConfig =
  high_threshold :: real
  mid_threshold :: real
  recency_half_life :: int
  max_placeholder_tokens :: int
  default_compress_ratio :: real

definition FocusConfig_default :: FocusConfig where
  "FocusConfig_default =
     \<lparr>high_threshold = 0.55, mid_threshold = 0.30, recency_half_life = 12,
      max_placeholder_tokens = 12, default_compress_ratio = 0.35\<rparr>"

text \<open>
  \<^verbatim>\<open>FocusManager\<close>. The embedder and the compressor are the interfaces of
  embedding.py and compression.py: any function may stand behind them, and they are
  taken to return (a collaborator that raises aborts the call with no result).
  The compressor receives the text, the target and the hint.
\<close>

type_synonym compress_fn = "str \<Rightarrow> int \<Rightarrow> str option \<Rightarrow> str"

record FocusManager =
  embedder :: "str \<Rightarrow> real list"
  tc :: TokenCounter
  compressor :: compress_fn
  cfg :: FocusConfig
  items :: "MemoryItem list"
  next_id :: int

text \<open>
  \<^verbatim>\<open>FocusManager.__init__\<close>. The body has no \<^verbatim>\<open>raise\<close> and checks nothing, so every
  path ends in \<^term>\<open>Inr\<close>. \<open>heuristic\<close> stands for the class \<^verbatim>\<open>HeuristicCompressor\<close>,
  the default when no compressor is passed.
\<close>

definition FocusManager_init ::
  "(TokenCounter \<Rightarrow> compress_fn) \<Rightarrow> (str \<Rightarrow> real list) \<Rightarrow> TokenCounter \<Rightarrow>
   compress_fn option \<Rightarrow> FocusConfig option \<Rightarrow> py_error + FocusManager" where
  "FocusManager_init heuristic e c compr config =
     Inr \<lparr>embedder = e, tc = c,
          compressor = (case compr of Some f \<Rightarrow> f | None \<Rightarrow> heuristic c),
          cfg = (case config of Some g \<Rightarrow> g | None \<Rightarrow> FocusConfig_default),
          items = [], next_id = 1\<rparr>"

definition add_message :: "FocusManager \<Rightarrow> str \<Rightarrow> str \<Rightarrow> MemoryItem \<times> FocusManager" where
  "add_message m r text =
     (let item = \<lparr>item_id = next_id m, role = r, content = text,
                  token_len = count (tc m) text,
                  embedding = Some (embedder m text),
                  compression_state = FULL, compressed_text = None, last_score = 0\<rparr>
      in (item, m\<lparr>items := items m @ [item], next_id := next_id m + 1\<rparr>))"

section \<open>focus.py: the stub\<close>

definition stub_prefix :: "MemoryItem \<Rightarrow> str" where
  "stub_prefix it =
     ascii ''[ref #'' @ str_int (item_id it) @ [32, 8226, 32] @ role it @ ascii ''] ''"

definition make_stub :: "FocusManager \<Rightarrow> MemoryItem \<Rightarrow> str" where
  "make_stub m it =
     (let head = take 200 (takeWhile (\<lambda>c. c \<noteq> 10) (py_strip (content it)));
          prefix = stub_prefix it;
          room = max 0 (max_placeholder_tokens (cfg m) - count (tc m) prefix)
      in if room \<le> 0 then py_strip prefix
         else prefix @ truncate_to_tokens head room (tc m))"

section \<open>focus.py: scoring and planning\<close>

text \<open>One round of the scoring loop, for the item at position \<open>idx\<close> of \<open>n\<close>.
  \<^verbatim>\<open>not it.embedding\<close> holds for \<^verbatim>\<open>None\<close> and for the empty list.\<close>

definition item_embedding :: "FocusManager \<Rightarrow> MemoryItem \<Rightarrow> real list" where
  "item_embedding m it =
     (case embedding it of
        None \<Rightarrow> embedder m (content it)
      | Some e \<Rightarrow> if e = [] then embedder m (content it) else e)"

definition score_item :: "FocusManager \<Rightarrow> real list \<Rightarrow> nat \<Rightarrow> nat \<Rightarrow> MemoryItem \<Rightarrow> MemoryItem" where
  "score_item m q_emb n idx it =
     (let emb = item_embedding m it;
          sim = cosine q_emb emb;
          turns_ago = (int n - 1) - int idx;
          half = max 1 (recency_half_life (cfg m));
          recency_weight = 0.5 powr (real_of_int turns_ago / real_of_int half);
          score = max 0 sim * (0.25 + 0.75 * recency_weight)
      in it\<lparr>embedding := Some emb, last_score := score\<rparr>)"

definition score_items :: "FocusManager \<Rightarrow> real list \<Rightarrow> MemoryItem list" where
  "score_items m q_emb =
     map (\<lambda>(idx, it). score_item m q_emb (length (items m)) idx it)
       (enumerate 0 (items m))"

definition plan :: "FocusConfig \<Rightarrow> real \<Rightarrow> Fidelity" where
  "plan g score =
     (if score \<ge> high_threshold g then FULL
      else if score \<ge> mid_threshold g then COMPRESSED
      else PLACEHOLDER)"

text \<open>\<^verbatim>\<open>desired_map\<close>: a dict keyed by id, filled in the order of \<^verbatim>\<open>scored\<close> (the
  score of an item is its \<open>last_score\<close>, just written).\<close>

definition desired_map_of :: "FocusConfig \<Rightarrow> MemoryItem list \<Rightarrow> (int \<rightharpoonup> Fidelity)" where
  "desired_map_of g scored =
     fold (\<lambda>it dm. dm(item_id it \<mapsto> plan g (last_score it))) scored Map.empty"

section \<open>focus.py: packing\<close>

text \<open>
  The variables of \<^verbatim>\<open>build_context\<close> that the packing loop changes. The items are
  objects shared between \<^verbatim>\<open>self._items\<close> and \<^verbatim>\<open>ordered_items\<close>: \<open>its\<close> holds them by
  their position in \<^verbatim>\<open>self._items\<close>, and the loop runs over positions.
  Two fields are bookkeeping that the source does not have: \<open>emitted\<close> lists, for
  every message the item loop appends, the position of its item and the fidelity
  written to \<^verbatim>\<open>compression_state\<close>; \<open>calls\<close> lists the positions of the items for which
  \<^verbatim>\<open>compressor.compress\<close> was invoked, with the target passed.
\<close>

record pack_state =
  its :: "MemoryItem list"
  messages :: "(str \<times> str) list"
  budget_left :: int
  used_tokens :: int
  raw_tokens :: int
  compressed_tokens :: int
  placeholder_tokens :: int
  expanded_count :: int
  compressed_count :: int
  stub_count :: int
  emitted :: "(nat \<times> Fidelity) list"
  calls :: "(nat \<times> int) list"

definition try_add :: "TokenCounter \<Rightarrow> str \<Rightarrow> str \<Rightarrow> pack_state \<Rightarrow> bool \<times> pack_state" where
  "try_add c r text st =
     (let need = count c text in
      if need \<le> budget_left st
      then (True, st\<lparr>messages := messages st @ [(r, text)],
                      budget_left := budget_left st - need\<rparr>)
      else (False, st))"

text \<open>\<^verbatim>\<open>it.compressed_text or compress_item(it)\<close>: a stored text that is not empty is
  taken as it is; \<^verbatim>\<open>None\<close> and the empty string call the compressor.\<close>

definition compress_item :: "FocusManager \<Rightarrow> str \<Rightarrow> MemoryItem \<Rightarrow> int \<times> str" where
  "compress_item m query it =
     (let target = max 1 (py_int (real_of_int (token_len it) * default_compress_ratio (cfg m)))
      in (target, compressor m (content it) target (Some query)))"

definition comp_of :: "FocusManager \<Rightarrow> str \<Rightarrow> nat \<Rightarrow> pack_state \<Rightarrow> str \<times> pack_state" where
  "comp_of m query i st =
     (let it = its st ! i in
      case compressed_text it of
        Some t \<Rightarrow>
          if t \<noteq> [] then (t, st)
          else (let (target, comp) = compress_item m query it
                in (comp, st\<lparr>calls := calls st @ [(i, target)]\<rparr>))
      | None \<Rightarrow>
          (let (target, comp) = compress_item m query it
           in (comp, st\<lparr>calls := calls st @ [(i, target)]\<rparr>)))"

text \<open>The three attempts. The source writes the stub attempt three times and the
  compressed attempt twice, each time the same statements; here each is one function,
  and a failed attempt goes on to the next one as the source does.\<close>

definition emit_stub :: "FocusManager \<Rightarrow> nat \<Rightarrow> pack_state \<Rightarrow> pack_state" where
  "emit_stub m i st =
     (let it = its st ! i;
          stub = make_stub m it;
          (ok, st1) = try_add (tc m) (role it) stub st
      in if ok then
           (let stok = count (tc m) stub in
            st1\<lparr>used_tokens := used_tokens st1 + stok,
                placeholder_tokens := placeholder_tokens st1 + stok,
                stub_count := stub_count st1 + 1,
                its := (its st1)[i := (its st1 ! i)\<lparr>compression_state := PLACEHOLDER\<rparr>],
                emitted := emitted st1 @ [(i, PLACEHOLDER)]\<rparr>)
         else st1)"

definition emit_compressed :: "FocusManager \<Rightarrow> str \<Rightarrow> nat \<Rightarrow> pack_state \<Rightarrow> pack_state" where
  "emit_compressed m query i st =
     (let (comp, st0) = comp_of m query i st;
          st1 = st0\<lparr>its := (its st0)[i := (its st0 ! i)\<lparr>compressed_text := Some comp\<rparr>]\<rparr>;
          (ok, st2) = try_add (tc m) (role (its st1 ! i)) comp st1
      in if ok then
           (let ctok = count (tc m) comp in
            st2\<lparr>used_tokens := used_tokens st2 + ctok,
                compressed_tokens := compressed_tokens st2 + ctok,
                compressed_count := compressed_count st2 + 1,
                its := (its st2)[i := (its st2 ! i)\<lparr>compression_state := COMPRESSED\<rparr>],
                emitted := emitted st2 @ [(i, COMPRESSED)]\<rparr>)
         else emit_stub m i st2)"

definition emit_full :: "FocusManager \<Rightarrow> str \<Rightarrow> nat \<Rightarrow> pack_state \<Rightarrow> pack_state" where
  "emit_full m query i st =
     (let it = its st ! i;
          (ok, st1) = try_add (tc m) (role it) (content it) st
      in if ok then
           st1\<lparr>used_tokens := used_tokens st1 + token_len it,
               raw_tokens := raw_tokens st1 + token_len it,
               expanded_count := expanded_count st1 + 1,
               its := (its st1)[i := (its st1 ! i)\<lparr>compression_state := FULL\<rparr>],
               emitted := emitted st1 @ [(i, FULL)]\<rparr>
         else emit_compressed m query i st1)"

text \<open>One round of the item loop; \<^verbatim>\<open>desired_map[it.id]\<close> raises \<^verbatim>\<open>KeyError\<close> on a
  missing key.\<close>

definition pack_item ::
  "FocusManager \<Rightarrow> str \<Rightarrow> (int \<rightharpoonup> Fidelity) \<Rightarrow> nat \<Rightarrow> pack_state \<Rightarrow> py_error + pack_state" where
  "pack_item m query dm i st =
     (case dm (item_id (its st ! i)) of
        None \<Rightarrow> Inl KeyError
      | Some FULL \<Rightarrow> Inr (emit_full m query i st)
      | Some COMPRESSED \<Rightarrow> Inr (emit_compressed m query i st)
      | Some PLACEHOLDER \<Rightarrow> Inr (emit_stub m i st))"

fun pack_loop ::
  "FocusManager \<Rightarrow> str \<Rightarrow> (int \<rightharpoonup> Fidelity) \<Rightarrow> nat list \<Rightarrow> pack_state \<Rightarrow> py_error + pack_state" where
  "pack_loop m query dm [] st = Inr st"
| "pack_loop m query dm (i # js) st =
     (case pack_item m query dm i st of
        Inl e \<Rightarrow> Inl e
      | Inr st' \<Rightarrow> pack_loop m query dm js st')"

text \<open>\<^verbatim>\<open>if system_preamble: try_add("system", system_preamble)\<close>: \<^verbatim>\<open>None\<close> and the
  empty string are both false; the result of \<^verbatim>\<open>try_add\<close> is dropped.\<close>

definition add_preamble :: "TokenCounter \<Rightarrow> str option \<Rightarrow> pack_state \<Rightarrow> pack_state" where
  "add_preamble c system_preamble st =
     (case system_preamble of
        None \<Rightarrow> st
      | Some p \<Rightarrow> if p = [] then st else snd (try_add c (ascii ''system'') p st))"

text \<open>\<^verbatim>\<open>sorted(self._items, key=lambda x: x.id)\<close> is a stable sort; it yields the same
  objects, here their positions.\<close>

definition ordered_items :: "MemoryItem list \<Rightarrow> nat list" where
  "ordered_items xs = sort_key (\<lambda>i. item_id (xs ! i)) [0..<length xs]"

definition pack_init :: "MemoryItem list \<Rightarrow> int \<Rightarrow> pack_state" where
  "pack_init xs budget_tokens =
     \<lparr>its = xs, messages = [], budget_left = budget_tokens,
      used_tokens = 0, raw_tokens = 0, compressed_tokens = 0, placeholder_tokens = 0,
      expanded_count = 0, compressed_count = 0, stub_count = 0,
      emitted = [], calls = []\<rparr>"

text \<open>\<^verbatim>\<open>build_context\<close> up to the end of the item loop: the final values of its
  variables.\<close>

definition build_context_run ::
  "FocusManager \<Rightarrow> str \<Rightarrow> int \<Rightarrow> str option \<Rightarrow> py_error + pack_state" where
  "build_context_run m current_query budget_tokens system_preamble =
     (let q_emb = embedder m current_query;
          scored = score_items m q_emb;
          dm = desired_map_of (cfg m) scored;
          st = add_preamble (tc m) system_preamble (pack_init scored budget_tokens)
      in pack_loop m current_query dm (ordered_items scored) st)"

text \<open>The \<^verbatim>\<open>stats\<close> dict. The three planned counts look \<^verbatim>\<open>desired_map\<close> up once more,
  for ids the item loop has already looked up.\<close>

definition count_planned :: "(int \<rightharpoonup> Fidelity) \<Rightarrow> MemoryItem list \<Rightarrow> Fidelity \<Rightarrow> real" where
  "count_planned dm scored f = real (length (filter (\<lambda>it. dm (item_id it) = Some f) scored))"

definition stats_of ::
  "int \<Rightarrow> pack_state \<Rightarrow> (int \<rightharpoonup> Fidelity) \<Rightarrow> MemoryItem list \<Rightarrow> (string \<rightharpoonup> real)" where
  "stats_of budget_tokens st dm scored =
     map_of
       [(''budget'', real_of_int budget_tokens),
        (''used'', real_of_int (used_tokens st)),
        (''raw_tokens'', real_of_int (raw_tokens st)),
        (''compressed_tokens'', real_of_int (compressed_tokens st)),
        (''placeholder_tokens'', real_of_int (placeholder_tokens st)),
        (''expanded_count'', real_of_int (expanded_count st)),
        (''compressed_count'', real_of_int (compressed_count st)),
        (''stub_count'', real_of_int (stub_count st)),
        (''items_total'', real (length scored)),
        (''items_planned_full'', count_planned dm scored FULL),
        (''items_planned_compressed'', count_planned dm scored COMPRESSED),
        (''items_planned_stub'', count_planned dm scored PLACEHOLDER)]"

text \<open>\<^verbatim>\<open>build_context\<close>: the manager with its items as the call leaves them, the
  messages and the stats.\<close>

definition build_context ::
  "FocusManager \<Rightarrow> str \<Rightarrow> int \<Rightarrow> str option \<Rightarrow>
   py_error + (FocusManager \<times> (str \<times> str) list \<times> (string \<rightharpoonup> real))" where
  "build_context m current_query budget_tokens system_preamble =
     (case build_context_run m current_query budget_tokens system_preamble of
        Inl e \<Rightarrow> Inl e
      | Inr st \<Rightarrow>
          (let scored = score_items m (embedder m current_query);
               dm = desired_map_of (cfg m) scored
           in Inr (m\<lparr>items := its st\<rparr>, messages st, stats_of budget_tokens st dm scored)))"

section \<open>A session\<close>

text \<open>
  A driver calls \<^verbatim>\<open>add_message\<close> and \<^verbatim>\<open>build_context\<close> on one manager, in any order
  (chat\_llm.py does so in its loop). \<open>session\<close> runs such a sequence and returns
  the final manager together with the compressor invocations of all the
  \<^verbatim>\<open>build_context\<close> calls, in order. After a \<^verbatim>\<open>build_context\<close> call the manager
  holds the items as the item loop left them, which is the manager that
  \<open>build_context\<close> returns.
\<close>

datatype request = Add_message str str | Build_context str int "str option"

fun session :: "FocusManager \<Rightarrow> request list \<Rightarrow> py_error + FocusManager \<times> (nat \<times> int) list" where
  "session m [] = Inr (m, [])"
| "session m (Add_message r text # rs) = session (snd (add_message m r text)) rs"
| "session m (Build_context q b pre # rs) =
     (case build_context_run m q b pre of
        Inl e \<Rightarrow> Inl e
      | Inr st \<Rightarrow>
          (case session (m\<lparr>items := its st\<rparr>) rs of
             Inl e \<Rightarrow> Inl e
           | Inr (m', cs) \<Rightarrow> Inr (m', calls st @ cs)))"

section \<open>Notions used to state the properties\<close>

text \<open>The token cost of a list of messages, as the token counter measures it.\<close>

definition cost :: "TokenCounter \<Rightarrow> (str \<times> str) list \<Rightarrow> int" where
  "cost c msgs = sum_list (map (\<lambda>p. count c (snd p)) msgs)"

text \<open>What \<^verbatim>\<open>build_context\<close> puts in front of the turn messages: the preamble
  message when a non-empty preamble is given and fits the budget.\<close>

definition preamble_messages :: "TokenCounter \<Rightarrow> str option \<Rightarrow> int \<Rightarrow> (str \<times> str) list" where
  "preamble_messages c system_preamble budget_tokens =
     (case system_preamble of
        None \<Rightarrow> []
      | Some p \<Rightarrow>
          if p \<noteq> [] \<and> count c p \<le> budget_tokens then [(ascii ''system'', p)] else [])"

text \<open>The state that \<^verbatim>\<open>add_message\<close> establishes: every item caches the token count
  of its content, and ids grow with the position and stay below \<open>next_id\<close>.\<close>

definition lens_ok :: "TokenCounter \<Rightarrow> MemoryItem list \<Rightarrow> bool" where
  "lens_ok c xs = list_all (\<lambda>it. token_len it = count c (content it)) xs"

definition token_len_ok :: "FocusManager \<Rightarrow> bool" where
  "token_len_ok m = lens_ok (tc m) (items m)"

definition ids_ok :: "FocusManager \<Rightarrow> bool" where
  "ids_ok m \<longleftrightarrow>
     sorted_wrt (<) (map item_id (items m)) \<and> list_all (\<lambda>it. item_id it < next_id m) (items m)"

text \<open>The fields of an item that packing never writes.\<close>

definition core :: "MemoryItem \<Rightarrow> int \<times> str \<times> str \<times> int" where
  "core it = (item_id it, role it, content it, token_len it)"

text \<open>How expensive a fidelity is: the cascade only steps down.\<close>

fun expense :: "Fidelity \<Rightarrow> nat" where
  "expense FULL = 2"
| "expense COMPRESSED = 1"
| "expense PLACEHOLDER = 0"

text \<open>The message that stands for the item at a position, at a fidelity.\<close>

definition msg_of :: "FocusManager \<Rightarrow> MemoryItem list \<Rightarrow> nat \<times> Fidelity \<Rightarrow> str \<times> str" where
  "msg_of m xs e =
     (let it = xs ! fst e in
      (role it,
       case snd e of
         FULL \<Rightarrow> content it
       | COMPRESSED \<Rightarrow> (case compressed_text it of Some t \<Rightarrow> t | None \<Rightarrow> [])
       | PLACEHOLDER \<Rightarrow> make_stub m it))"

text \<open>An item holds a memoised compressed text that \<^verbatim>\<open>or\<close> takes as true.\<close>

definition memo_stored :: "MemoryItem \<Rightarrow> bool" where
  "memo_stored it = (case compressed_text it of None \<Rightarrow> False | Some c \<Rightarrow> c \<noteq> [])"

text \<open>Invariants of the item loop: the counters agree with each other and with the
  messages appended (\<open>k\<close> messages came before the loop); the budget is consumed by
  what \<open>used_tokens\<close> records (\<open>B\<close> was left and \<open>pc\<close> was spent before the loop).\<close>

definition inv_counts :: "nat \<Rightarrow> pack_state \<Rightarrow> bool" where
  "inv_counts k st \<longleftrightarrow>
     used_tokens st = raw_tokens st + compressed_tokens st + placeholder_tokens st \<and>
     expanded_count st + compressed_count st + stub_count st = int (length (emitted st)) \<and>
     length (messages st) = k + length (emitted st)"

definition inv_budget :: "TokenCounter \<Rightarrow> int \<Rightarrow> int \<Rightarrow> int \<Rightarrow> pack_state \<Rightarrow> bool" where
  "inv_budget c b B pc st \<longleftrightarrow>
     min 0 b \<le> budget_left st \<and> used_tokens st + budget_left st = B \<and>
     cost c (messages st) = pc + used_tokens st"

text \<open>What one round of the item loop does for the item at position \<open>j\<close> whose desired
  fidelity is \<open>d\<close>: no other item changes, at most one message is appended, at a
  fidelity no more expensive than \<open>d\<close>, and a stored compressed text is kept without
  a call of the compressor.\<close>

definition step_rel :: "FocusManager \<Rightarrow> Fidelity \<Rightarrow> nat \<Rightarrow> pack_state \<Rightarrow> pack_state \<Rightarrow> bool" where
  "step_rel m d j st st' \<longleftrightarrow>
     length (its st') = length (its st) \<and>
     (\<forall>k. k \<noteq> j \<longrightarrow> its st' ! k = its st ! k) \<and>
     core (its st' ! j) = core (its st ! j) \<and>
     embedding (its st' ! j) = embedding (its st ! j) \<and>
     last_score (its st' ! j) = last_score (its st ! j) \<and>
     ((emitted st' = emitted st \<and> messages st' = messages st \<and>
       compression_state (its st' ! j) = compression_state (its st ! j)) \<or>
      (\<exists>f. expense f \<le> expense d \<and> emitted st' = emitted st @ [(j, f)] \<and>
           messages st' = messages st @ [msg_of m (its st') (j, f)] \<and>
           compression_state (its st' ! j) = f)) \<and>
     (calls st' = calls st \<or> (\<exists>t. calls st' = calls st @ [(j, t)])) \<and>
     (\<forall>c. compressed_text (its st ! j) = Some c \<and> c \<noteq> [] \<longrightarrow>
          compressed_text (its st' ! j) = Some c \<and> calls st' = calls st)"

definition trace_ok ::
  "FocusManager \<Rightarrow> (int \<rightharpoonup> Fidelity) \<Rightarrow> MemoryItem list \<Rightarrow> MemoryItem list \<Rightarrow>
   (nat \<times> Fidelity) list \<Rightarrow> bool" where
  "trace_ok m dm xs xs' es \<longleftrightarrow>
     distinct (map fst es) \<and>
     (\<forall>e \<in> set es. compression_state (xs' ! fst e) = snd e \<and>
        (\<exists>d. dm (item_id (xs ! fst e)) = Some d \<and> expense (snd e) \<le> expense d)) \<and>
     (\<forall>k. k \<notin> fst ` set es \<longrightarrow> compression_state (xs' ! k) = compression_state (xs ! k))"

text \<open>A word as \<^verbatim>\<open>split()\<close> yields it: not empty, no whitespace.\<close>

definition is_word :: "str \<Rightarrow> bool" where
  "is_word w \<longleftrightarrow> w \<noteq> [] \<and> list_all (\<lambda>ch. \<not> isspace ch) w"

text \<open>The messages and one entry of the stats of a result; nothing on an error.\<close>

definition context_messages ::
  "py_error + (FocusManager \<times> (str \<times> str) list \<times> (string \<rightharpoonup> real)) \<Rightarrow> (str \<times> str) list" where
  "context_messages r = (case r of Inl e \<Rightarrow> [] | Inr x \<Rightarrow> fst (snd x))"

definition stat ::
  "py_error + (FocusManager \<times> (str \<times> str) list \<times> (string \<rightharpoonup> real)) \<Rightarrow> string \<Rightarrow> real option" where
  "stat r k = (case r of Inl e \<Rightarrow> None | Inr x \<Rightarrow> snd (snd x) k)"

section \<open>Concrete collaborators and managers\<close>

text \<open>
  The token counter without tiktoken (whitespace words), an embedder that maps the
  empty text to the zero vector and any other text to one unit vector, and a
  compressor that returns a text that fits and truncates one that does not.
\<close>

definition tc_fallback :: TokenCounter where
  "tc_fallback = \<lparr>model_name = ascii ''gpt-4o-mini'', enc = None\<rparr>"

definition emb_demo :: "str \<Rightarrow> real list" where
  "emb_demo text = (if text = [] then [0] else [1])"

definition compress_demo :: compress_fn where
  "compress_demo text target_tokens hint =
     (if count tc_fallback text \<le> target_tokens then text
      else truncate_to_tokens text target_tokens tc_fallback)"

definition cfg_demo :: FocusConfig where
  "cfg_demo =
     \<lparr>high_threshold = 0.55, mid_threshold = 0, recency_half_life = 12,
      max_placeholder_tokens = 12, default_compress_ratio = 0.35\<rparr>"

definition cfg_small :: FocusConfig where
  "cfg_small =
     \<lparr>high_threshold = 0.55, mid_threshold = 0.30, recency_half_life = 12,
      max_placeholder_tokens = 2, default_compress_ratio = 0.35\<rparr>"

definition cfg_swapped :: FocusConfig where
  "cfg_swapped =
     \<lparr>high_threshold = 0.30, mid_threshold = 0.55, recency_half_life = 12,
      max_placeholder_tokens = 12, default_compress_ratio = 0.35\<rparr>"

definition mgr0 :: FocusManager where
  "mgr0 =
     \<lparr>embedder = emb_demo, tc = tc_fallback, compressor = compress_demo,
      cfg = cfg_demo, items = [], next_id = 1\<rparr>"

definition item_empty :: MemoryItem where
  "item_empty =
     \<lparr>item_id = 1, role = ascii ''user'', content = [], token_len = 0,
      embedding = Some [0], compression_state = FULL, compressed_text = None,
      last_score = 0\<rparr>"

definition item_hello :: MemoryItem where
  "item_hello =
     \<lparr>item_id = 1, role = ascii ''user'', content = ascii ''hello big world'', token_len = 3,
      embedding = Some [1], compression_state = FULL, compressed_text = None,
      last_score = 0\<rparr>"

text \<open>\<open>mgr1\<close> holds one turn with empty content, \<open>mgr2\<close> one turn of three words.\<close>

definition mgr1 :: FocusManager where
  "mgr1 = snd (add_message mgr0 (ascii ''user'') [])"

definition mgr2 :: FocusManager where
  "mgr2 = snd (add_message mgr0 (ascii ''user'') (ascii ''hello big world''))"

definition mgr3 :: FocusManager where
  "mgr3 = snd (add_message mgr2 (ascii ''assistant'') (ascii ''ok''))"

text \<open>The two turns as \<^verbatim>\<open>build_context\<close> leaves them (query \<open>hi\<close>, no preamble): the
  empty turn with budget 10, the three-word turn with budget 2.\<close>

definition item_empty_packed :: MemoryItem where
  "item_empty_packed = item_empty\<lparr>compression_state := COMPRESSED, compressed_text := Some []\<rparr>"

definition item_hello_packed :: MemoryItem where
  "item_hello_packed =
     item_hello\<lparr>compression_state := COMPRESSED, compressed_text := Some (ascii ''hello''),
       last_score := 1\<rparr>"

definition mgr_small :: FocusManager where
  "mgr_small = mgr0\<lparr>cfg := cfg_small\<rparr>"

text \<open>A manager constructed with the swapped thresholds, after one \<^verbatim>\<open>add_message\<close>.\<close>

definition mgr_swapped :: FocusManager where
  "mgr_swapped =
     snd (add_message (mgr0\<lparr>cfg := cfg_swapped\<rparr>) (ascii ''user'') (ascii ''hello big world''))"

text \<open>A token counter whose encoding yields one token per code point, and a manager
  that uses it with \<^verbatim>\<open>max_placeholder_tokens = 20\<close>.\<close>

definition tc_chars :: TokenCounter where
  "tc_chars = \<lparr>model_name = ascii ''chars'', enc = Some (\<lambda>text. Some (map int text))\<rparr>"

definition mgr_chars :: FocusManager where
  "mgr_chars = mgr0\<lparr>tc := tc_chars, cfg := cfg_demo\<lparr>max_placeholder_tokens := 20\<rparr>\<rparr>"

definition item_abcd :: MemoryItem where
  "item_abcd = item_hello\<lparr>content := ascii ''ab cd'', token_len := 5\<rparr>"

section \<open>Token counter and strings\<close>

lemma count_nonneg: "0 \<le> count c text"
  by (auto simp: count_def split: option.splits)

lemma split_aux_spaces:
  "list_all isspace ws \<Longrightarrow> split_aux ws cur = (if cur = [] then [] else [cur])"
  by (induction ws arbitrary: cur) auto

lemma split_aux_trailing:
  "list_all isspace ws \<Longrightarrow> split_aux (xs @ ws) cur = split_aux xs cur"
  by (induction xs arbitrary: cur) (simp_all add: split_aux_spaces)

lemma split_aux_leading:
  "split_aux (dropWhile isspace xs) [] = split_aux xs []"
  by (induction xs) simp_all

lemma split_aux_cut:
  "isspace c \<Longrightarrow> split_aux (xs @ c # ys) cur = split_aux (xs @ [c]) cur @ split_aux ys []"
  by (induction xs arbitrary: cur) simp_all

lemma split_aux_word:
  "list_all (\<lambda>ch. \<not> isspace ch) w \<Longrightarrow> split_aux (w @ xs) cur = split_aux xs (cur @ w)"
  by (induction w arbitrary: cur) simp_all

lemma split_aux_words:
  "list_all (\<lambda>ch. \<not> isspace ch) cur \<Longrightarrow> list_all is_word (split_aux xs cur)"
  by (induction xs arbitrary: cur) (auto simp: is_word_def)

lemma py_split_words: "list_all is_word (py_split s)"
  by (simp add: py_split_def split_aux_words)

lemma py_split_strip: "py_split (py_strip s) = py_split s"
proof -
  let ?t = "dropWhile isspace s"
  have "?t = rev (dropWhile isspace (rev ?t)) @ rev (takeWhile isspace (rev ?t))"
    by (metis rev_append rev_rev_ident takeWhile_dropWhile_id)
  moreover have "list_all isspace (rev (takeWhile isspace (rev ?t)))"
    by (simp add: list_all_iff) (meson set_takeWhileD)
  ultimately have "split_aux ?t [] = split_aux (rev (dropWhile isspace (rev ?t))) []"
    by (metis split_aux_trailing)
  then show ?thesis
    by (simp add: py_split_def py_strip_def split_aux_leading)
qed

lemma py_split_word: "is_word w \<Longrightarrow> py_split w = [w]"
  using split_aux_word [of w "[]" "[]"] by (simp add: py_split_def is_word_def)

lemma split_aux_word_space: "is_word x \<Longrightarrow> split_aux (x @ [32]) [] = [x]"
proof -
  assume w: "is_word x"
  then have "list_all (\<lambda>ch. \<not> isspace ch) x" by (simp add: is_word_def)
  then have "split_aux (x @ [32]) [] = split_aux [32] ([] @ x)"
    by (rule split_aux_word)
  also have "\<dots> = [x]"
    using w by (simp add: is_word_def isspace_def)
  finally show ?thesis .
qed

lemma py_split_after_space:
  "py_split (p @ 32 # r) = py_split (p @ [32]) @ py_split r"
proof -
  have "isspace 32" by (simp add: isspace_def)
  then show ?thesis
    unfolding py_split_def by (rule split_aux_cut)
qed

lemma py_split_join: "list_all is_word ws \<Longrightarrow> py_split (py_join [32] ws) = ws"
proof (induction ws)
  case Nil
  then show ?case by (simp add: py_split_def)
next
  case (Cons x xs)
  from Cons.prems have x: "is_word x" and xs: "list_all is_word xs" by simp_all
  show ?case
  proof (cases xs)
    case Nil
    from x have "py_split x = [x]" by (rule py_split_word)
    then show ?thesis by (simp add: Nil)
  next
    case (Cons y ys)
    then have j: "py_join [32] (x # xs) = x @ 32 # py_join [32] xs"
      by simp
    have "py_split (x @ 32 # py_join [32] xs) = py_split (x @ [32]) @ py_split (py_join [32] xs)"
      by (rule py_split_after_space)
    also have "py_split (x @ [32]) = [x]"
      using split_aux_word_space [OF x] by (simp only: py_split_def)
    also have "py_split (py_join [32] xs) = xs"
      using xs by (rule Cons.IH)
    finally show ?thesis
      by (simp only: j append_Cons append_Nil)
  qed
qed

lemma count_fallback:
  "enc c = None \<Longrightarrow> count c s = (if s = [] then 0 else max 1 (int (length (py_split s))))"
  by (simp add: count_def)

lemma count_word: "enc c = None \<Longrightarrow> is_word w \<Longrightarrow> count c w = 1"
  by (simp add: count_fallback py_split_word) (simp add: is_word_def)

lemma trunc_loop_words:
  "enc c = None \<Longrightarrow> list_all is_word ws \<Longrightarrow> list_all is_word out \<Longrightarrow> used \<le> target \<Longrightarrow>
   list_all is_word (trunc_loop c target ws out used) \<and>
   int (length (trunc_loop c target ws out used)) \<le> int (length out) + (target - used)"
proof (induction ws arbitrary: out used)
  case Nil
  then show ?case by simp
next
  case (Cons w ws)
  then have w: "count c w = 1" by (simp add: count_word)
  show ?case
  proof (cases "used + 1 > target")
    case True
    with Cons.prems w show ?thesis by simp
  next
    case False
    then have "used + 1 \<le> target" by simp
    from Cons.IH [of "out @ [w]" "used + 1"] Cons.prems this w False show ?thesis
      by (simp add: Let_def)
  qed
qed

lemma count_strip_le: "enc c = None \<Longrightarrow> count c (py_strip s) \<le> count c s"
proof -
  assume e: "enc c = None"
  show ?thesis
  proof (cases "py_strip s = []")
    case True
    then have "count c (py_strip s) = 0" by (simp add: count_def)
    then show ?thesis using count_nonneg [of c s] by simp
  next
    case False
    then have "s \<noteq> []" by (auto simp: py_strip_def)
    with False e show ?thesis
      by (simp add: count_fallback py_split_strip)
  qed
qed

lemma stub_prefix_snoc: "\<exists>p. stub_prefix it = p @ [32]"
  by (simp add: stub_prefix_def ascii_def)

lemma split_aux_nonempty: "cur \<noteq> [] \<Longrightarrow> split_aux xs cur \<noteq> []"
  by (induction xs arbitrary: cur) auto

lemma stub_prefix_Cons: "\<exists>p. stub_prefix it = 91 # p"
  by (simp add: stub_prefix_def ascii_def)

lemma count_strip_prefix:
  assumes "enc c = None"
  shows "count c (py_strip (stub_prefix it)) = count c (stub_prefix it)"
proof -
  obtain p where p: "stub_prefix it = 91 # p"
    using stub_prefix_Cons by blast
  have "\<not> isspace 91"
    by (simp add: isspace_def)
  then have "py_split (stub_prefix it) = split_aux p [91]"
    by (simp add: p py_split_def)
  then have "py_split (stub_prefix it) \<noteq> []"
    by (simp add: split_aux_nonempty)
  then have "py_split (py_strip (stub_prefix it)) \<noteq> []"
    by (simp add: py_split_strip)
  then have "py_strip (stub_prefix it) \<noteq> []"
    by (auto simp: py_split_def)
  moreover have "stub_prefix it \<noteq> []"
    by (simp add: p)
  ultimately show ?thesis
    using assms by (simp add: count_fallback py_split_strip)
qed

lemma stub_cost_le:
  assumes e: "enc (tc m) = None"
  shows "count (tc m) (make_stub m it)
           \<le> max (max_placeholder_tokens (cfg m)) (count (tc m) (stub_prefix it))"
proof -
  let ?c = "tc m"
  let ?P = "stub_prefix it"
  let ?room = "max 0 (max_placeholder_tokens (cfg m) - count ?c ?P)"
  let ?head = "take 200 (takeWhile (\<lambda>c. c \<noteq> 10) (py_strip (content it)))"
  show ?thesis
  proof (cases "?room \<le> 0")
    case True
    then have "make_stub m it = py_strip ?P"
      by (simp add: make_stub_def Let_def)
    with count_strip_le [OF e, of ?P] show ?thesis by simp
  next
    case False
    let ?out = "trunc_loop ?c ?room (py_split ?head) [] 0"
    have stub: "make_stub m it = ?P @ py_join [32] ?out"
      using False by (simp add: make_stub_def Let_def truncate_to_tokens_def)
    from trunc_loop_words [OF e py_split_words, of "[]" 0 ?room ?head]
    have w: "list_all is_word ?out" and l: "int (length ?out) \<le> ?room"
      by simp_all
    obtain p where p: "?P = p @ [32]"
      using stub_prefix_snoc by blast
    have "py_split (?P @ py_join [32] ?out) = py_split ?P @ py_split (py_join [32] ?out)"
      using py_split_after_space [of p "py_join [32] ?out"] by (simp add: p)
    then have len: "length (py_split (make_stub m it)) = length (py_split ?P) + length ?out"
      by (simp add: stub py_split_join [OF w])
    have ne: "?P \<noteq> []" using p by simp
    have cp: "count ?c ?P = max 1 (int (length (py_split ?P)))"
      using e ne by (simp add: count_fallback)
    have "make_stub m it \<noteq> []"
      using ne by (simp add: stub)
    then have "count ?c (make_stub m it) = max 1 (int (length (py_split (make_stub m it))))"
      using e by (simp only: count_fallback if_False)
    then have cs: "count ?c (make_stub m it) = max 1 (int (length (py_split ?P) + length ?out))"
      by (simp only: len)
    from False have r: "?room = max_placeholder_tokens (cfg m) - count ?c ?P"
      by simp
    define a where "a = int (length (py_split ?P))"
    define k where "k = int (length ?out)"
    have "k \<le> max_placeholder_tokens (cfg m) - max 1 a"
      using l r cp by (simp add: a_def k_def)
    moreover have "count ?c (make_stub m it) = max 1 (a + k)"
      using cs by (simp add: a_def k_def)
    moreover have "count ?c ?P = max 1 a"
      using cp by (simp add: a_def)
    moreover have "0 \<le> k" "0 \<le> a"
      by (simp_all add: a_def k_def)
    ultimately show ?thesis
      by linarith
  qed
qed

section \<open>The item loop: counters and budget\<close>

lemma cost_append [simp]: "cost c (xs @ ys) = cost c xs + cost c ys"
  by (simp add: cost_def)

lemma cost_single [simp]: "cost c [(r, t)] = count c t"
  by (simp add: cost_def)

lemma cost_Nil [simp]: "cost c [] = 0"
  by (simp add: cost_def)

lemma lens_ok_nth: "lens_ok c xs \<Longrightarrow> i < length xs \<Longrightarrow> token_len (xs ! i) = count c (content (xs ! i))"
  unfolding lens_ok_def list_all_length by simp

lemma emit_stub_counts: "inv_counts k st \<Longrightarrow> inv_counts k (emit_stub m i st)"
  by (auto simp: inv_counts_def emit_stub_def try_add_def Let_def)

lemma comp_of_frame:
  "comp_of m q i st = (t, st') \<Longrightarrow> \<exists>l. st' = st\<lparr>calls := l\<rparr>"
  by (auto simp: comp_of_def Let_def split: option.splits if_splits prod.splits intro: exI [of _ "calls st"])

lemma emit_compressed_counts: "inv_counts k st \<Longrightarrow> inv_counts k (emit_compressed m q i st)"
  apply (simp add: emit_compressed_def Let_def split: prod.splits)
  apply (intro allI impI conjI)
  apply (drule comp_of_frame)
   apply (auto simp: inv_counts_def try_add_def Let_def split: if_splits)[1]
  apply (rule emit_stub_counts)
  apply (drule comp_of_frame)
   apply (auto simp: inv_counts_def try_add_def Let_def split: if_splits)[1]
  done

lemma emit_full_counts: "inv_counts k st \<Longrightarrow> inv_counts k (emit_full m q i st)"
  apply (simp add: emit_full_def Let_def split: prod.splits)
  apply (intro allI impI conjI)
   apply (auto simp: inv_counts_def try_add_def Let_def split: if_splits)[1]
  apply (rule emit_compressed_counts)
   apply (auto simp: inv_counts_def try_add_def Let_def split: if_splits)[1]
  done


lemma nth_update_same: "(xs[i := v]) ! i = (if i < length xs then v else xs ! i)"
  by (cases "i < length xs") (simp_all add: list_update_beyond)

lemma map_core_update:
  "core v = core (xs ! i) \<Longrightarrow> map core (xs[i := v]) = map core xs"
  using map_update [of core xs i "xs ! i"] by (simp add: map_update)

lemma emit_stub_core: "map core (its (emit_stub m i st)) = map core (its st)"
  by (auto simp: emit_stub_def try_add_def Let_def core_def intro!: map_core_update)

lemma comp_of_its: "comp_of m q i st = (t, st') \<Longrightarrow> its st' = its st"
  by (auto dest: comp_of_frame)

lemma emit_compressed_core: "map core (its (emit_compressed m q i st)) = map core (its st)"
  by (auto simp: emit_compressed_def try_add_def Let_def emit_stub_core core_def nth_update_same
      split: prod.splits dest!: comp_of_its intro!: map_core_update)

lemma emit_full_core: "map core (its (emit_full m q i st)) = map core (its st)"
  by (auto simp: emit_full_def try_add_def Let_def emit_compressed_core core_def
      split: prod.splits intro!: map_core_update)

lemma pack_item_core:
  "pack_item m q dm i st = Inr st' \<Longrightarrow> map core (its st') = map core (its st)"
  by (auto simp: pack_item_def emit_stub_core emit_compressed_core emit_full_core
      split: option.splits Fidelity.splits)

lemma pack_loop_core:
  "pack_loop m q dm js st = Inr st' \<Longrightarrow> map core (its st') = map core (its st)"
proof (induction js arbitrary: st)
  case Nil
  then show ?case by simp
next
  case (Cons j js)
  then show ?case
    by (auto split: sum.splits dest!: pack_item_core)
qed

lemma core_lens_ok: "map core xs = map core ys \<Longrightarrow> lens_ok c xs = lens_ok c ys"
proof -
  assume h: "map core xs = map core ys"
  have "lens_ok c zs = list_all (\<lambda>p. snd (snd (snd p)) = count c (fst (snd (snd p)))) (map core zs)" for zs
    by (simp add: lens_ok_def list_all_iff core_def)
  with h show ?thesis by simp
qed


lemma emit_stub_budget:
  "inv_budget (tc m) b B pc st \<Longrightarrow> inv_budget (tc m) b B pc (emit_stub m i st)"
  by (auto simp: inv_budget_def emit_stub_def try_add_def Let_def)

lemma emit_compressed_budget:
  "inv_budget (tc m) b B pc st \<Longrightarrow> inv_budget (tc m) b B pc (emit_compressed m q i st)"
  apply (simp add: emit_compressed_def Let_def split: prod.splits)
  apply (intro allI impI conjI)
   apply (drule comp_of_frame)
   apply (auto simp: inv_budget_def try_add_def Let_def split: if_splits)[1]
  apply (rule emit_stub_budget)
  apply (drule comp_of_frame)
  apply (auto simp: inv_budget_def try_add_def Let_def split: if_splits)[1]
  done

lemma emit_full_budget:
  "inv_budget (tc m) b B pc st \<Longrightarrow> token_len (its st ! i) = count (tc m) (content (its st ! i)) \<Longrightarrow>
   inv_budget (tc m) b B pc (emit_full m q i st)"
  apply (simp add: emit_full_def Let_def split: prod.splits)
  apply (intro allI impI conjI)
   apply (auto simp: inv_budget_def try_add_def Let_def split: if_splits)[1]
  apply (rule emit_compressed_budget)
  apply (auto simp: inv_budget_def try_add_def Let_def split: if_splits)[1]
  done

lemma pack_item_counts:
  "inv_counts k st \<Longrightarrow> pack_item m q dm i st = Inr st' \<Longrightarrow> inv_counts k st'"
  by (auto simp: pack_item_def emit_stub_counts emit_compressed_counts emit_full_counts
      split: option.splits Fidelity.splits)

lemma pack_item_budget:
  "inv_budget (tc m) b B pc st \<Longrightarrow> lens_ok (tc m) (its st) \<Longrightarrow> i < length (its st) \<Longrightarrow>
   pack_item m q dm i st = Inr st' \<Longrightarrow> inv_budget (tc m) b B pc st'"
  by (auto simp: pack_item_def emit_stub_budget emit_compressed_budget emit_full_budget lens_ok_nth
      split: option.splits Fidelity.splits)

lemma pack_loop_counts:
  "inv_counts k st \<Longrightarrow> pack_loop m q dm js st = Inr st' \<Longrightarrow> inv_counts k st'"
proof (induction js arbitrary: st)
  case Nil
  then show ?case by simp
next
  case (Cons j js)
  then show ?case
    by (auto split: sum.splits dest: pack_item_counts)
qed

lemma pack_loop_budget:
  "inv_budget (tc m) b B pc st \<Longrightarrow> lens_ok (tc m) (its st) \<Longrightarrow> list_all (\<lambda>j. j < length (its st)) js \<Longrightarrow>
   pack_loop m q dm js st = Inr st' \<Longrightarrow> inv_budget (tc m) b B pc st'"
proof (induction js arbitrary: st)
  case Nil
  then show ?case by simp
next
  case (Cons j js)
  from Cons.prems obtain st1 where s1: "pack_item m q dm j st = Inr st1"
    and s2: "pack_loop m q dm js st1 = Inr st'"
    by (auto split: sum.splits)
  have c: "map core (its st1) = map core (its st)"
    using s1 by (rule pack_item_core)
  then have len: "length (its st1) = length (its st)"
    by (metis length_map)
  have "inv_budget (tc m) b B pc st1"
    using Cons.prems s1 by (auto intro: pack_item_budget)
  moreover have "lens_ok (tc m) (its st1)"
    using Cons.prems(2) core_lens_ok [OF c] by simp
  moreover have "list_all (\<lambda>j. j < length (its st1)) js"
    using Cons.prems(3) len by simp
  ultimately show ?case
    using Cons.IH s2 by blast
qed

lemma pack_loop_total:
  "list_all (\<lambda>j. j < length (its st) \<and> dm (item_id (its st ! j)) \<noteq> None) js \<Longrightarrow>
   \<exists>st'. pack_loop m q dm js st = Inr st'"
proof (induction js arbitrary: st)
  case Nil
  then show ?case by simp
next
  case (Cons j js)
  from Cons.prems obtain d where "dm (item_id (its st ! j)) = Some d"
    by auto
  then have "\<exists>st1. pack_item m q dm j st = Inr st1"
    by (cases d) (simp_all add: pack_item_def)
  then obtain st1 where s1: "pack_item m q dm j st = Inr st1" ..
  have c: "map core (its st1) = map core (its st)"
    using s1 by (rule pack_item_core)
  then have len: "length (its st1) = length (its st)"
    by (metis length_map)
  have ids: "item_id (its st1 ! k) = item_id (its st ! k)" if "k < length (its st)" for k
  proof -
    have "core (its st1 ! k) = core (its st ! k)"
      using c that len by (metis nth_map)
    then show ?thesis by (simp add: core_def)
  qed
  have "list_all (\<lambda>j. j < length (its st1) \<and> dm (item_id (its st1 ! j)) \<noteq> None) js"
    using Cons.prems len ids by (auto simp: list_all_iff)
  from Cons.IH [OF this] s1 show ?case by simp
qed


lemma add_preamble_messages:
  "messages (add_preamble c pre (pack_init xs b)) = preamble_messages c pre b"
  by (simp add: add_preamble_def preamble_messages_def pack_init_def try_add_def Let_def
      split: option.splits)

lemma add_preamble_its: "its (add_preamble c pre (pack_init xs b)) = xs"
  by (simp add: add_preamble_def pack_init_def try_add_def Let_def split: option.splits)

lemma add_preamble_counts:
  "inv_counts (length (preamble_messages c pre b)) (add_preamble c pre (pack_init xs b))"
  by (simp add: inv_counts_def add_preamble_def preamble_messages_def pack_init_def try_add_def
      Let_def split: option.splits)

lemma add_preamble_budget:
  "inv_budget c b (b - cost c (preamble_messages c pre b)) (cost c (preamble_messages c pre b))
     (add_preamble c pre (pack_init xs b))"
  by (auto simp: inv_budget_def add_preamble_def preamble_messages_def pack_init_def try_add_def
      Let_def split: option.splits)

lemma score_item_core: "core (score_item m e n idx it) = core it"
  by (simp add: score_item_def core_def Let_def)

lemma length_score_items: "length (score_items m e) = length (items m)"
  by (simp add: score_items_def)

lemma nth_score_items:
  "i < length (items m) \<Longrightarrow>
   score_items m e ! i = score_item m e (length (items m)) i (items m ! i)"
  by (simp add: score_items_def nth_enumerate_eq)

lemma score_items_core: "map core (score_items m e) = map core (items m)"
  by (rule nth_equalityI) (simp_all add: length_score_items nth_score_items score_item_core)

lemma set_ordered_items: "set (ordered_items xs) = {0..<length xs}"
  by (simp add: ordered_items_def)

lemma distinct_ordered_items: "distinct (ordered_items xs)"
  by (simp add: ordered_items_def)

lemma desired_map_fold:
  "dom (fold (\<lambda>it dm. dm(item_id it \<mapsto> plan g (last_score it))) xs dm0) = dom dm0 \<union> item_id ` set xs"
  by (induction xs arbitrary: dm0) auto

lemma dom_desired_map: "dom (desired_map_of g xs) = item_id ` set xs"
  by (simp add: desired_map_of_def desired_map_fold)

lemma build_context_run_total:
  "\<exists>st. build_context_run m q b pre = Inr st"
proof -
  let ?xs = "score_items m (embedder m q)"
  let ?dm = "desired_map_of (cfg m) ?xs"
  let ?st = "add_preamble (tc m) pre (pack_init ?xs b)"
  have "list_all (\<lambda>j. j < length (its ?st) \<and> ?dm (item_id (its ?st ! j)) \<noteq> None) (ordered_items ?xs)"
    unfolding list_all_iff add_preamble_its set_ordered_items
    using dom_desired_map [of "cfg m" ?xs] by (auto simp: dom_def)
  from pack_loop_total [OF this] show ?thesis
    by (simp add: build_context_run_def Let_def)
qed

lemma build_context_run_loop:
  "build_context_run m q b pre = Inr st \<Longrightarrow>
   pack_loop m q (desired_map_of (cfg m) (score_items m (embedder m q)))
     (ordered_items (score_items m (embedder m q)))
     (add_preamble (tc m) pre (pack_init (score_items m (embedder m q)) b)) = Inr st"
  by (simp add: build_context_run_def Let_def)

lemma ordered_items_bound:
  "list_all (\<lambda>j. j < length (its (add_preamble c pre (pack_init xs b)))) (ordered_items xs)"
  by (simp add: list_all_iff add_preamble_its set_ordered_items)

lemma build_context_run_facts:
  assumes "build_context_run m q b pre = Inr st"
  shows "inv_counts (length (preamble_messages (tc m) pre b)) st"
    and "map core (its st) = map core (items m)"
    and "token_len_ok m \<Longrightarrow>
         inv_budget (tc m) b (b - cost (tc m) (preamble_messages (tc m) pre b))
           (cost (tc m) (preamble_messages (tc m) pre b)) st"
proof -
  let ?xs = "score_items m (embedder m q)"
  let ?dm = "desired_map_of (cfg m) ?xs"
  let ?st = "add_preamble (tc m) pre (pack_init ?xs b)"
  have run: "pack_loop m q ?dm (ordered_items ?xs) ?st = Inr st"
    using assms by (rule build_context_run_loop)
  show "inv_counts (length (preamble_messages (tc m) pre b)) st"
    using add_preamble_counts run by (rule pack_loop_counts)
  show c: "map core (its st) = map core (items m)"
    using pack_loop_core [OF run] by (simp add: add_preamble_its score_items_core)
  assume ok: "token_len_ok m"
  have l: "lens_ok (tc m) (its ?st)"
    using ok core_lens_ok [OF score_items_core, of "tc m" m "embedder m q"]
    by (simp add: add_preamble_its token_len_ok_def)
  show "inv_budget (tc m) b (b - cost (tc m) (preamble_messages (tc m) pre b))
           (cost (tc m) (preamble_messages (tc m) pre b)) st"
    using add_preamble_budget l ordered_items_bound run by (rule pack_loop_budget)
qed

lemma stats_used [simp]: "stats_of b st dm xs ''used'' = Some (real_of_int (used_tokens st))"
  by (simp add: stats_of_def)

lemma stats_budget [simp]: "stats_of b st dm xs ''budget'' = Some (real_of_int b)"
  by (simp add: stats_of_def)

section \<open>The item loop: one round\<close>

lemma make_stub_state [simp]: "make_stub m (it\<lparr>compression_state := f\<rparr>) = make_stub m it"
  by (simp add: make_stub_def stub_prefix_def)

lemma make_stub_memo [simp]: "make_stub m (it\<lparr>compressed_text := t\<rparr>) = make_stub m it"
  by (simp add: make_stub_def stub_prefix_def)

lemma emit_stub_step:
  "j < length (its st) \<Longrightarrow> step_rel m d j st (emit_stub m j st)"
  by (auto simp: step_rel_def emit_stub_def try_add_def Let_def core_def msg_of_def)



lemma try_add_False: "try_add c r t st = (False, st') \<Longrightarrow> st' = st"
  by (auto simp: try_add_def Let_def split: if_splits)

lemma try_add_True:
  "try_add c r t st = (True, st') \<Longrightarrow>
   st' = st\<lparr>messages := messages st @ [(r, t)], budget_left := budget_left st - count c t\<rparr>"
  by (auto simp: try_add_def Let_def split: if_splits)

lemma comp_of_facts:
  assumes "comp_of m q j st = (t, st0)"
  shows "st0 = st\<lparr>calls := calls st0\<rparr>"
    and "calls st0 = calls st \<or> (\<exists>n. calls st0 = calls st @ [(j, n)])"
    and "compressed_text (its st ! j) = Some c \<Longrightarrow> c \<noteq> [] \<Longrightarrow> t = c \<and> calls st0 = calls st"
  using assms
  by (auto simp: comp_of_def Let_def split: option.splits if_splits prod.splits)

lemma calls_emit_stub [simp]: "calls (emit_stub m j st) = calls st"
  by (simp add: emit_stub_def try_add_def Let_def)

lemma step_rel_after_memo:
  assumes j: "j < length (its st)"
    and its1: "its st1 = (its st)[j := (its st ! j)\<lparr>compressed_text := Some t\<rparr>]"
    and same: "messages st1 = messages st" "emitted st1 = emitted st"
    and calls1: "calls st1 = calls st \<or> (\<exists>n. calls st1 = calls st @ [(j, n)])"
    and memo: "\<And>c. compressed_text (its st ! j) = Some c \<Longrightarrow> c \<noteq> [] \<Longrightarrow> t = c \<and> calls st1 = calls st"
    and step: "step_rel m PLACEHOLDER j st1 st'"
    and calls': "calls st' = calls st1"
  shows "step_rel m d j st st'"
proof -
  have len: "length (its st1) = length (its st)"
    by (simp add: its1)
  have other: "its st1 ! k = its st ! k" if "k \<noteq> j" for k
    using that by (simp add: its1)
  have at: "its st1 ! j = (its st ! j)\<lparr>compressed_text := Some t\<rparr>"
    using j by (simp add: its1)
  have a: "length (its st') = length (its st)"
    using step len by (simp add: step_rel_def)
  have b: "\<forall>k. k \<noteq> j \<longrightarrow> its st' ! k = its st ! k"
    using step other by (simp add: step_rel_def)
  have c: "core (its st' ! j) = core (its st ! j)"
    "embedding (its st' ! j) = embedding (its st ! j)"
    "last_score (its st' ! j) = last_score (its st ! j)"
    using step at by (simp_all add: step_rel_def core_def)
  have e: "(emitted st' = emitted st \<and> messages st' = messages st \<and>
       compression_state (its st' ! j) = compression_state (its st ! j)) \<or>
      (\<exists>f. expense f \<le> expense d \<and> emitted st' = emitted st @ [(j, f)] \<and>
           messages st' = messages st @ [msg_of m (its st') (j, f)] \<and>
           compression_state (its st' ! j) = f)"
  proof -
    from step have "(emitted st' = emitted st1 \<and> messages st' = messages st1 \<and>
       compression_state (its st' ! j) = compression_state (its st1 ! j)) \<or>
      (\<exists>f. expense f \<le> expense PLACEHOLDER \<and> emitted st' = emitted st1 @ [(j, f)] \<and>
           messages st' = messages st1 @ [msg_of m (its st') (j, f)] \<and>
           compression_state (its st' ! j) = f)"
      by (simp add: step_rel_def)
    then show ?thesis
    proof
      assume "emitted st' = emitted st1 \<and> messages st' = messages st1 \<and>
       compression_state (its st' ! j) = compression_state (its st1 ! j)"
      then show ?thesis using same at by simp
    next
      assume "\<exists>f. expense f \<le> expense PLACEHOLDER \<and> emitted st' = emitted st1 @ [(j, f)] \<and>
           messages st' = messages st1 @ [msg_of m (its st') (j, f)] \<and>
           compression_state (its st' ! j) = f"
      then obtain f where "expense f \<le> expense PLACEHOLDER" "emitted st' = emitted st1 @ [(j, f)]"
        "messages st' = messages st1 @ [msg_of m (its st') (j, f)]"
        "compression_state (its st' ! j) = f"
        by blast
      then have "expense f \<le> expense d \<and> emitted st' = emitted st @ [(j, f)] \<and>
           messages st' = messages st @ [msg_of m (its st') (j, f)] \<and>
           compression_state (its st' ! j) = f"
        using same by simp
      then show ?thesis by blast
    qed
  qed
  have f: "calls st' = calls st \<or> (\<exists>n. calls st' = calls st @ [(j, n)])"
    using calls1 calls' by simp
  have g: "\<forall>c. compressed_text (its st ! j) = Some c \<and> c \<noteq> [] \<longrightarrow>
          compressed_text (its st' ! j) = Some c \<and> calls st' = calls st"
  proof (intro allI impI)
    fix c assume h: "compressed_text (its st ! j) = Some c \<and> c \<noteq> []"
    then have tc: "t = c \<and> calls st1 = calls st"
      using memo by blast
    then have "compressed_text (its st1 ! j) = Some c \<and> c \<noteq> []"
      using at h by simp
    then have "compressed_text (its st' ! j) = Some c"
      using step by (simp add: step_rel_def)
    then show "compressed_text (its st' ! j) = Some c \<and> calls st' = calls st"
      using tc calls' by simp
  qed
  show ?thesis
    unfolding step_rel_def using a b c e f g by blast
qed

lemma emit_compressed_step:
  assumes j: "j < length (its st)" and d: "1 \<le> expense d"
  shows "step_rel m d j st (emit_compressed m q j st)"
proof -
  obtain t st0 where co: "comp_of m q j st = (t, st0)"
    by (cases "comp_of m q j st") blast
  define st1 where "st1 = st0\<lparr>its := (its st0)[j := (its st0 ! j)\<lparr>compressed_text := Some t\<rparr>]\<rparr>"
  obtain ok st2 where ta: "try_add (tc m) (role (its st1 ! j)) t st1 = (ok, st2)"
    by (cases "try_add (tc m) (role (its st1 ! j)) t st1") blast
  have eq0: "st0 = st\<lparr>calls := calls st0\<rparr>"
    using co by (rule comp_of_facts(1))
  have its0: "its st0 = its st" "messages st0 = messages st" "emitted st0 = emitted st"
    by (subst eq0, simp)+
  have its1: "its st1 = (its st)[j := (its st ! j)\<lparr>compressed_text := Some t\<rparr>]"
    "messages st1 = messages st" "emitted st1 = emitted st" "calls st1 = calls st0"
    by (simp_all add: st1_def its0)
  have calls1: "calls st1 = calls st \<or> (\<exists>n. calls st1 = calls st @ [(j, n)])"
    using comp_of_facts(2) [OF co] its1(4) by simp
  have memo: "\<And>c. compressed_text (its st ! j) = Some c \<Longrightarrow> c \<noteq> [] \<Longrightarrow> t = c \<and> calls st1 = calls st"
    using comp_of_facts(3) [OF co] its1(4) by simp
  have j1: "j < length (its st1)"
    using j by (simp add: its1)
  show ?thesis
  proof (cases ok)
    case False
    then have st2: "st2 = st1"
      using ta by (auto dest: try_add_False)
    have res: "emit_compressed m q j st = emit_stub m j st1"
      using co ta False st2 by (simp add: emit_compressed_def Let_def st1_def)
    have "step_rel m d j st (emit_stub m j st1)"
      using j its1(1,2,3) calls1 memo emit_stub_step [OF j1] calls_emit_stub
      by (rule step_rel_after_memo)
    then show ?thesis by (simp add: res)
  next
    case True
    then have st2: "st2 = st1\<lparr>messages := messages st1 @ [(role (its st1 ! j), t)],
        budget_left := budget_left st1 - count (tc m) t\<rparr>"
      using ta by (auto dest: try_add_True)
    define st' where "st' = emit_compressed m q j st"
    have res: "st' = st2\<lparr>used_tokens := used_tokens st2 + count (tc m) t,
                compressed_tokens := compressed_tokens st2 + count (tc m) t,
                compressed_count := compressed_count st2 + 1,
                its := (its st2)[j := (its st2 ! j)\<lparr>compression_state := COMPRESSED\<rparr>],
                emitted := emitted st2 @ [(j, COMPRESSED)]\<rparr>"
      using co ta True by (simp add: st'_def emit_compressed_def Let_def st1_def)
    have i2: "its st' = (its st)[j := (its st ! j)\<lparr>compressed_text := Some t, compression_state := COMPRESSED\<rparr>]"
      using j by (simp add: res st2 its1)
    have m2: "messages st' = messages st @ [(role (its st ! j), t)]"
      using j by (simp add: res st2 its1)
    have e2: "emitted st' = emitted st @ [(j, COMPRESSED)]"
      by (simp add: res st2 its1)
    have c2: "calls st' = calls st1"
      by (simp add: res st2)
    have msg: "msg_of m (its st') (j, COMPRESSED) = (role (its st ! j), t)"
      using j by (simp add: msg_of_def i2)
    have mm: "messages st' = messages st @ [msg_of m (its st') (j, COMPRESSED)]"
      using m2 msg by simp
    have "step_rel m d j st st'"
      unfolding step_rel_def
      using j d calls1 memo mm by (auto simp: i2 e2 c2 core_def)
    then show ?thesis by (simp add: st'_def)
  qed
qed

lemma emit_full_step:
  "j < length (its st) \<Longrightarrow> step_rel m FULL j st (emit_full m q j st)"
proof -
  assume j: "j < length (its st)"
  obtain ok st1 where t: "try_add (tc m) (role (its st ! j)) (content (its st ! j)) st = (ok, st1)"
    by (cases "try_add (tc m) (role (its st ! j)) (content (its st ! j)) st") blast
  show ?thesis
  proof (cases ok)
    case True
    with t j show ?thesis
      by (auto simp: step_rel_def emit_full_def Let_def core_def msg_of_def dest!: try_add_True)
  next
    case False
    with t have "emit_full m q j st = emit_compressed m q j st"
      by (auto simp: emit_full_def Let_def dest!: try_add_False)
    with j show ?thesis
      by (simp add: emit_compressed_step)
  qed
qed


lemma pack_item_step:
  assumes "pack_item m q dm j st = Inr st'" and "j < length (its st)"
  shows "\<exists>d. dm (item_id (its st ! j)) = Some d \<and> step_rel m d j st st'"
proof -
  from assms(1) obtain d where d: "dm (item_id (its st ! j)) = Some d"
    by (auto simp: pack_item_def split: option.splits)
  have "step_rel m d j st st'"
  proof (cases d)
    case FULL
    with assms d show ?thesis by (auto simp: pack_item_def intro: emit_full_step)
  next
    case COMPRESSED
    with assms d show ?thesis by (auto simp: pack_item_def intro: emit_compressed_step)
  next
    case PLACEHOLDER
    with assms d show ?thesis by (auto simp: pack_item_def intro: emit_stub_step)
  qed
  with d show ?thesis by blast
qed

lemma pack_loop_frame:
  assumes "pack_loop m q dm js st = Inr st'" and "list_all (\<lambda>j. j < length (its st)) js"
  shows "length (its st') = length (its st) \<and> (\<forall>k. k \<notin> set js \<longrightarrow> its st' ! k = its st ! k)"
  using assms
proof (induction js arbitrary: st)
  case Nil
  then show ?case by simp
next
  case (Cons j js)
  from Cons.prems obtain st1 where s1: "pack_item m q dm j st = Inr st1"
    and s2: "pack_loop m q dm js st1 = Inr st'"
    by (auto split: sum.splits)
  from Cons.prems have j: "j < length (its st)" by simp
  from pack_item_step [OF s1 j] obtain d where st: "step_rel m d j st st1" by blast
  then have len: "length (its st1) = length (its st)"
    and oth: "\<forall>k. k \<noteq> j \<longrightarrow> its st1 ! k = its st ! k"
    by (simp_all add: step_rel_def)
  have "list_all (\<lambda>j. j < length (its st1)) js"
    using Cons.prems(2) len by simp
  from Cons.IH [OF s2 this] len oth show ?case by simp
qed

lemma msg_of_cong: "xs ! fst e = ys ! fst e \<Longrightarrow> msg_of m xs e = msg_of m ys e"
  by (simp add: msg_of_def)

lemma pack_loop_trace:
  assumes "pack_loop m q dm js st = Inr st'" and "distinct js"
    and "list_all (\<lambda>j. j < length (its st)) js"
  shows "\<exists>es. emitted st' = emitted st @ es \<and>
           messages st' = messages st @ map (msg_of m (its st')) es \<and>
           set (map fst es) \<subseteq> set js \<and> trace_ok m dm (its st) (its st') es"
  using assms
proof (induction js arbitrary: st)
  case Nil
  then show ?case by (simp add: trace_ok_def)
next
  case (Cons j js)
  from Cons.prems obtain st1 where s1: "pack_item m q dm j st = Inr st1"
    and s2: "pack_loop m q dm js st1 = Inr st'"
    by (auto split: sum.splits)
  from Cons.prems have j: "j < length (its st)" and jn: "j \<notin> set js" and dj: "distinct js"
    by simp_all
  from pack_item_step [OF s1 j] obtain d where d: "dm (item_id (its st ! j)) = Some d"
    and st: "step_rel m d j st st1" by blast
  from st have len: "length (its st1) = length (its st)"
    and oth: "\<And>k. k \<noteq> j \<Longrightarrow> its st1 ! k = its st ! k"
    by (simp_all add: step_rel_def)
  have bnd: "list_all (\<lambda>j. j < length (its st1)) js"
    using Cons.prems(3) len by simp
  from pack_loop_frame [OF s2 bnd] jn have keep: "its st' ! j = its st1 ! j"
    by simp
  from Cons.IH [OF s2 dj bnd] obtain es2 where
    e2: "emitted st' = emitted st1 @ es2"
    and m2: "messages st' = messages st1 @ map (msg_of m (its st')) es2"
    and sub2: "set (map fst es2) \<subseteq> set js"
    and ok2: "trace_ok m dm (its st1) (its st') es2"
    by blast
  have nj: "j \<notin> fst ` set es2"
    using sub2 jn by auto
  have ne: "fst e \<noteq> j" if "e \<in> set es2" for e
    using that nj by auto
  from st have "(emitted st1 = emitted st \<and> messages st1 = messages st \<and>
       compression_state (its st1 ! j) = compression_state (its st ! j)) \<or>
      (\<exists>f. expense f \<le> expense d \<and> emitted st1 = emitted st @ [(j, f)] \<and>
           messages st1 = messages st @ [msg_of m (its st1) (j, f)] \<and>
           compression_state (its st1 ! j) = f)"
    by (simp add: step_rel_def)
  then show ?case
  proof
    assume a: "emitted st1 = emitted st \<and> messages st1 = messages st \<and>
       compression_state (its st1 ! j) = compression_state (its st ! j)"
    have "trace_ok m dm (its st) (its st') es2"
      unfolding trace_ok_def
    proof (intro conjI ballI allI impI)
      show "distinct (map fst es2)" using ok2 by (simp add: trace_ok_def)
    next
      fix e assume e: "e \<in> set es2"
      then show "compression_state (its st' ! fst e) = snd e"
        using ok2 by (simp add: trace_ok_def)
      from e ok2 have "\<exists>d. dm (item_id (its st1 ! fst e)) = Some d \<and> expense (snd e) \<le> expense d"
        by (simp add: trace_ok_def)
      then show "\<exists>d. dm (item_id (its st ! fst e)) = Some d \<and> expense (snd e) \<le> expense d"
        using oth [OF ne [OF e]] by simp
    next
      fix k assume k: "k \<notin> fst ` set es2"
      then have "compression_state (its st' ! k) = compression_state (its st1 ! k)"
        using ok2 by (simp add: trace_ok_def)
      then show "compression_state (its st' ! k) = compression_state (its st ! k)"
        using a oth [of k] by (cases "k = j") simp_all
    qed
    with a e2 m2 sub2 show ?thesis
      by (intro exI [of _ es2]) auto
  next
    assume "\<exists>f. expense f \<le> expense d \<and> emitted st1 = emitted st @ [(j, f)] \<and>
           messages st1 = messages st @ [msg_of m (its st1) (j, f)] \<and>
           compression_state (its st1 ! j) = f"
    then obtain f where f: "expense f \<le> expense d" "emitted st1 = emitted st @ [(j, f)]"
      "messages st1 = messages st @ [msg_of m (its st1) (j, f)]"
      "compression_state (its st1 ! j) = f"
      by blast
    have mj: "msg_of m (its st1) (j, f) = msg_of m (its st') (j, f)"
      by (rule msg_of_cong) (simp add: keep)
    have "trace_ok m dm (its st) (its st') ((j, f) # es2)"
      unfolding trace_ok_def
    proof (intro conjI ballI allI impI)
      show "distinct (map fst ((j, f) # es2))"
        using ok2 nj by (simp add: trace_ok_def)
    next
      fix e assume e: "e \<in> set ((j, f) # es2)"
      show "compression_state (its st' ! fst e) = snd e"
      proof (cases "e = (j, f)")
        case True
        then show ?thesis using keep f(4) by simp
      next
        case False
        with e have "e \<in> set es2" by simp
        then show ?thesis using ok2 by (simp add: trace_ok_def)
      qed
      show "\<exists>d. dm (item_id (its st ! fst e)) = Some d \<and> expense (snd e) \<le> expense d"
      proof (cases "e = (j, f)")
        case True
        then show ?thesis using d f(1) by simp
      next
        case False
        with e have e': "e \<in> set es2" by simp
        with ok2 have "\<exists>d. dm (item_id (its st1 ! fst e)) = Some d \<and> expense (snd e) \<le> expense d"
          by (simp add: trace_ok_def)
        then show ?thesis using oth [OF ne [OF e']] by simp
      qed
    next
      fix k assume k: "k \<notin> fst ` set ((j, f) # es2)"
      then have kj: "k \<noteq> j" and "k \<notin> fst ` set es2" by auto
      then have "compression_state (its st' ! k) = compression_state (its st1 ! k)"
        using ok2 by (simp add: trace_ok_def)
      then show "compression_state (its st' ! k) = compression_state (its st ! k)"
        using oth [OF kj] by simp
    qed
    moreover have "emitted st' = emitted st @ (j, f) # es2"
      using e2 f(2) by simp
    moreover have "messages st' = messages st @ map (msg_of m (its st')) ((j, f) # es2)"
      using m2 f(3) mj by simp
    moreover have "set (map fst ((j, f) # es2)) \<subseteq> set (j # js)"
      using sub2 by auto
    ultimately show ?thesis by blast
  qed
qed


lemma pack_loop_sorted:
  fixes key :: "nat \<Rightarrow> int"
  assumes "pack_loop m q dm js st = Inr st'" and "sorted_wrt (<) (map key js)"
    and "list_all (\<lambda>j. j < length (its st)) js"
  shows "\<exists>es. emitted st' = emitted st @ es \<and> set (map fst es) \<subseteq> set js \<and>
           sorted_wrt (<) (map (\<lambda>e. key (fst e)) es)"
  using assms
proof (induction js arbitrary: st)
  case Nil
  then show ?case by simp
next
  case (Cons j js)
  from Cons.prems obtain st1 where s1: "pack_item m q dm j st = Inr st1"
    and s2: "pack_loop m q dm js st1 = Inr st'"
    by (auto split: sum.splits)
  from Cons.prems have j: "j < length (its st)" and lt: "\<forall>k \<in> set js. key j < key k"
    and so: "sorted_wrt (<) (map key js)"
    by simp_all
  from pack_item_step [OF s1 j] obtain d where st: "step_rel m d j st st1" by blast
  then have len: "length (its st1) = length (its st)"
    by (simp add: step_rel_def)
  have bnd: "list_all (\<lambda>j. j < length (its st1)) js"
    using Cons.prems(3) len by simp
  from Cons.IH [OF s2 so bnd] obtain es2 where
    e2: "emitted st' = emitted st1 @ es2" and sub2: "set (map fst es2) \<subseteq> set js"
    and so2: "sorted_wrt (<) (map (\<lambda>e. key (fst e)) es2)"
    by blast
  from st have "emitted st1 = emitted st \<or> (\<exists>f. emitted st1 = emitted st @ [(j, f)])"
    by (auto simp: step_rel_def)
  then show ?case
  proof
    assume "emitted st1 = emitted st"
    with e2 sub2 so2 show ?thesis
      by (intro exI [of _ es2]) auto
  next
    assume "\<exists>f. emitted st1 = emitted st @ [(j, f)]"
    then obtain f where f: "emitted st1 = emitted st @ [(j, f)]" ..
    have "\<forall>e \<in> set es2. key j < key (fst e)"
      using lt sub2 by auto
    with e2 sub2 so2 f show ?thesis
      by (intro exI [of _ "(j, f) # es2"]) auto
  qed
qed

lemma step_rel_memo:
  assumes "step_rel m d j st st1"
  shows "memo_stored (its st ! k) \<Longrightarrow> compressed_text (its st1 ! k) = compressed_text (its st ! k)"
    and "calls st1 = calls st \<or> (\<exists>t. calls st1 = calls st @ [(j, t)] \<and> \<not> memo_stored (its st ! j))"
proof -
  have oth: "k \<noteq> j \<Longrightarrow> its st1 ! k = its st ! k"
    and at: "\<forall>c. compressed_text (its st ! j) = Some c \<and> c \<noteq> [] \<longrightarrow>
          compressed_text (its st1 ! j) = Some c \<and> calls st1 = calls st"
    and cl: "calls st1 = calls st \<or> (\<exists>t. calls st1 = calls st @ [(j, t)])"
    using assms unfolding step_rel_def by blast+
  show "memo_stored (its st ! k) \<Longrightarrow> compressed_text (its st1 ! k) = compressed_text (its st ! k)"
    using oth at by (cases "k = j") (auto simp: memo_stored_def split: option.splits)
  show "calls st1 = calls st \<or> (\<exists>t. calls st1 = calls st @ [(j, t)] \<and> \<not> memo_stored (its st ! j))"
    using at cl by (auto simp: memo_stored_def split: option.splits)
qed

lemma pack_loop_calls:
  assumes "pack_loop m q dm js st = Inr st'" and "list_all (\<lambda>j. j < length (its st)) js"
  shows "(\<forall>k. memo_stored (its st ! k) \<longrightarrow> compressed_text (its st' ! k) = compressed_text (its st ! k)) \<and>
         (\<exists>cs. calls st' = calls st @ cs \<and> (\<forall>e \<in> set cs. \<not> memo_stored (its st ! fst e)))"
  using assms
proof (induction js arbitrary: st)
  case Nil
  then show ?case by simp
next
  case (Cons j js)
  from Cons.prems obtain st1 where s1: "pack_item m q dm j st = Inr st1"
    and s2: "pack_loop m q dm js st1 = Inr st'"
    by (auto split: sum.splits)
  from Cons.prems have j: "j < length (its st)" by simp
  from pack_item_step [OF s1 j] obtain d where st: "step_rel m d j st st1" by blast
  then have len: "length (its st1) = length (its st)"
    by (simp add: step_rel_def)
  have bnd: "list_all (\<lambda>j. j < length (its st1)) js"
    using Cons.prems(2) len by simp
  have keep: "memo_stored (its st ! k) \<Longrightarrow> compressed_text (its st1 ! k) = compressed_text (its st ! k)" for k
    using st by (rule step_rel_memo(1))
  then have keep': "memo_stored (its st ! k) \<Longrightarrow> memo_stored (its st1 ! k)" for k
    by (simp add: memo_stored_def)
  from Cons.IH [OF s2 bnd] obtain cs2 where
    a: "\<forall>k. memo_stored (its st1 ! k) \<longrightarrow> compressed_text (its st' ! k) = compressed_text (its st1 ! k)"
    and b: "calls st' = calls st1 @ cs2" and c: "\<forall>e \<in> set cs2. \<not> memo_stored (its st1 ! fst e)"
    by blast
  have c': "\<forall>e \<in> set cs2. \<not> memo_stored (its st ! fst e)"
    using c keep' by blast
  have A: "\<forall>k. memo_stored (its st ! k) \<longrightarrow> compressed_text (its st' ! k) = compressed_text (its st ! k)"
    using a keep keep' by simp
  from step_rel_memo(2) [OF st]
  have "\<exists>cs. calls st' = calls st @ cs \<and> (\<forall>e \<in> set cs. \<not> memo_stored (its st ! fst e))"
  proof
    assume "calls st1 = calls st"
    with b c' show ?thesis by auto
  next
    assume "\<exists>t. calls st1 = calls st @ [(j, t)] \<and> \<not> memo_stored (its st ! j)"
    then obtain t where "calls st1 = calls st @ [(j, t)]" "\<not> memo_stored (its st ! j)" by blast
    with b c' show ?thesis
      by (intro exI [of _ "(j, t) # cs2"]) auto
  qed
  with A show ?case by blast
qed

lemma pack_loop_scores:
  assumes "pack_loop m q dm js st = Inr st'" and "list_all (\<lambda>j. j < length (its st)) js"
  shows "last_score (its st' ! k) = last_score (its st ! k) \<and>
         embedding (its st' ! k) = embedding (its st ! k)"
  using assms
proof (induction js arbitrary: st)
  case Nil
  then show ?case by simp
next
  case (Cons j js)
  from Cons.prems obtain st1 where s1: "pack_item m q dm j st = Inr st1"
    and s2: "pack_loop m q dm js st1 = Inr st'"
    by (auto split: sum.splits)
  from Cons.prems have j: "j < length (its st)" by simp
  from pack_item_step [OF s1 j] obtain d where st: "step_rel m d j st st1" by blast
  then have len: "length (its st1) = length (its st)"
    by (simp add: step_rel_def)
  have bnd: "list_all (\<lambda>j. j < length (its st1)) js"
    using Cons.prems(2) len by simp
  have "last_score (its st1 ! k) = last_score (its st ! k) \<and>
         embedding (its st1 ! k) = embedding (its st ! k)"
    using st by (cases "k = j") (simp_all add: step_rel_def)
  with Cons.IH [OF s2 bnd] show ?case by simp
qed

section \<open>The whole call\<close>

lemma add_preamble_ghost:
  "emitted (add_preamble c pre (pack_init xs b)) = [] \<and>
   calls (add_preamble c pre (pack_init xs b)) = []"
  by (simp add: add_preamble_def pack_init_def try_add_def Let_def split: option.splits)

lemma score_items_nth_fields:
  assumes "k < length (items m)"
  shows "item_id (score_items m e ! k) = item_id (items m ! k)"
    and "compression_state (score_items m e ! k) = compression_state (items m ! k)"
    and "compressed_text (score_items m e ! k) = compressed_text (items m ! k)"
    and "memo_stored (score_items m e ! k) = memo_stored (items m ! k)"
  using assms by (simp_all add: nth_score_items score_item_def Let_def memo_stored_def)

lemma build_context_run_trace:
  assumes "build_context_run m q b pre = Inr st"
  shows "messages st = preamble_messages (tc m) pre b @ map (msg_of m (its st)) (emitted st)"
    and "set (map fst (emitted st)) \<subseteq> {0..<length (items m)}"
    and "trace_ok m (desired_map_of (cfg m) (score_items m (embedder m q)))
           (score_items m (embedder m q)) (its st) (emitted st)"
proof -
  let ?xs = "score_items m (embedder m q)"
  let ?dm = "desired_map_of (cfg m) ?xs"
  let ?st = "add_preamble (tc m) pre (pack_init ?xs b)"
  have run: "pack_loop m q ?dm (ordered_items ?xs) ?st = Inr st"
    using assms by (rule build_context_run_loop)
  from pack_loop_trace [OF run distinct_ordered_items ordered_items_bound]
  obtain es where es: "emitted st = emitted ?st @ es"
    "messages st = messages ?st @ map (msg_of m (its st)) es"
    "set (map fst es) \<subseteq> set (ordered_items ?xs)"
    "trace_ok m ?dm (its ?st) (its st) es"
    by blast
  from es(1) have e: "emitted st = es"
    by (simp add: add_preamble_ghost)
  show "messages st = preamble_messages (tc m) pre b @ map (msg_of m (its st)) (emitted st)"
    using es(2) by (simp add: e add_preamble_messages)
  show "set (map fst (emitted st)) \<subseteq> {0..<length (items m)}"
    using es(3) by (simp add: e set_ordered_items length_score_items)
  show "trace_ok m ?dm ?xs (its st) (emitted st)"
    using es(4) by (simp add: e add_preamble_its)
qed

lemma sorted_ordered_items:
  assumes "distinct (map item_id xs)"
  shows "sorted_wrt (<) (map (\<lambda>i. item_id (xs ! i)) (ordered_items xs))"
proof -
  let ?key = "\<lambda>i. item_id (xs ! i)"
  have "map ?key [0..<length xs] = map item_id xs"
    by (rule nth_equalityI) simp_all
  with assms have "distinct (map ?key [0..<length xs])"
    by simp
  then have "inj_on ?key (set [0..<length xs])"
    by (simp add: distinct_map)
  then have "distinct (map ?key (sort_key ?key [0..<length xs]))"
    by (simp add: distinct_map)
  moreover have "sorted (map ?key (sort_key ?key [0..<length xs]))"
    by (rule sorted_sort_key)
  ultimately show ?thesis
    by (simp add: ordered_items_def strict_sorted_iff)
qed

lemma build_context_run_sorted:
  assumes run: "build_context_run m q b pre = Inr st"
    and ids: "distinct (map item_id (items m))"
  shows "sorted_wrt (<) (map (\<lambda>e. item_id (its st ! fst e)) (emitted st))"
proof -
  let ?xs = "score_items m (embedder m q)"
  let ?dm = "desired_map_of (cfg m) ?xs"
  let ?st = "add_preamble (tc m) pre (pack_init ?xs b)"
  let ?key = "\<lambda>i. item_id (?xs ! i)"
  have loop: "pack_loop m q ?dm (ordered_items ?xs) ?st = Inr st"
    using run by (rule build_context_run_loop)
  have "map item_id ?xs = map item_id (items m)"
    by (rule nth_equalityI) (simp_all add: length_score_items score_items_nth_fields)
  with ids have "distinct (map item_id ?xs)"
    by simp
  then have "sorted_wrt (<) (map ?key (ordered_items ?xs))"
    by (rule sorted_ordered_items)
  from pack_loop_sorted [OF loop this ordered_items_bound]
  obtain es where es: "emitted st = emitted ?st @ es" "set (map fst es) \<subseteq> set (ordered_items ?xs)"
    "sorted_wrt (<) (map (\<lambda>e. ?key (fst e)) es)"
    by blast
  from es(1) have e: "emitted st = es"
    by (simp add: add_preamble_ghost)
  have c: "map core (its st) = map core ?xs"
    using pack_loop_core [OF loop] by (simp add: add_preamble_its)
  have same: "item_id (its st ! k) = ?key k" if "k < length ?xs" for k
  proof -
    have "length (its st) = length ?xs"
      using c by (metis length_map)
    with c that have "core (its st ! k) = core (?xs ! k)"
      by (metis nth_map)
    then show ?thesis by (simp add: core_def)
  qed
  have "map (\<lambda>e. item_id (its st ! fst e)) es = map (\<lambda>e. ?key (fst e)) es"
  proof (rule map_cong [OF refl])
    fix x assume "x \<in> set es"
    with es(2) have "fst x < length ?xs"
      by (auto simp: set_ordered_items)
    then show "item_id (its st ! fst x) = ?key (fst x)"
      by (rule same)
  qed
  then show ?thesis
    unfolding e using es(3) by (simp only:)
qed

lemma build_context_run_memo:
  assumes run: "build_context_run m q b pre = Inr st"
    and p: "p < length (items m)" and memo: "memo_stored (items m ! p)"
  shows "compressed_text (its st ! p) = compressed_text (items m ! p)"
    and "p \<notin> fst ` set (calls st)"
proof -
  let ?xs = "score_items m (embedder m q)"
  let ?dm = "desired_map_of (cfg m) ?xs"
  let ?st = "add_preamble (tc m) pre (pack_init ?xs b)"
  have loop: "pack_loop m q ?dm (ordered_items ?xs) ?st = Inr st"
    using run by (rule build_context_run_loop)
  have m0: "memo_stored (its ?st ! p)"
    using p memo by (simp add: add_preamble_its score_items_nth_fields)
  from pack_loop_calls [OF loop ordered_items_bound] obtain cs where
    keep: "\<forall>k. memo_stored (its ?st ! k) \<longrightarrow> compressed_text (its st ! k) = compressed_text (its ?st ! k)"
    and cs: "calls st = calls ?st @ cs" "\<forall>e \<in> set cs. \<not> memo_stored (its ?st ! fst e)"
    by blast
  show "compressed_text (its st ! p) = compressed_text (items m ! p)"
    using keep m0 p by (simp add: add_preamble_its score_items_nth_fields)
  show "p \<notin> fst ` set (calls st)"
    using cs m0 by (auto simp: add_preamble_ghost)
qed

lemma build_context_run_scores:
  assumes run: "build_context_run m q b pre = Inr st" and p: "p < length (items m)"
  shows "last_score (its st ! p) =
           last_score (score_item m (embedder m q) (length (items m)) p (items m ! p))"
proof -
  let ?xs = "score_items m (embedder m q)"
  let ?dm = "desired_map_of (cfg m) ?xs"
  let ?st = "add_preamble (tc m) pre (pack_init ?xs b)"
  have loop: "pack_loop m q ?dm (ordered_items ?xs) ?st = Inr st"
    using run by (rule build_context_run_loop)
  from pack_loop_scores [OF loop ordered_items_bound, of p]
  show ?thesis
    using p by (simp add: add_preamble_its nth_score_items)
qed

lemma build_context_Inr:
  "build_context_run m q b pre = Inr st \<Longrightarrow>
   build_context m q b pre =
     Inr (m\<lparr>items := its st\<rparr>, messages st,
          stats_of b st (desired_map_of (cfg m) (score_items m (embedder m q)))
            (score_items m (embedder m q)))"
  by (simp add: build_context_def Let_def)

lemma plan_swapped: "high_threshold g \<le> mid_threshold g \<Longrightarrow> plan g score \<noteq> COMPRESSED"
  by (simp add: plan_def)

lemma desired_map_fold_swapped:
  assumes "high_threshold g \<le> mid_threshold g" and "\<forall>k. dm0 k \<noteq> Some COMPRESSED"
  shows "fold (\<lambda>it dm. dm(item_id it \<mapsto> plan g (last_score it))) xs dm0 k \<noteq> Some COMPRESSED"
  using assms(2)
proof (induction xs arbitrary: dm0)
  case Nil
  then show ?case by simp
next
  case (Cons x xs)
  have "\<forall>k. (dm0(item_id x \<mapsto> plan g (last_score x))) k \<noteq> Some COMPRESSED"
    using Cons.prems plan_swapped [OF assms(1)] by simp
  from Cons.IH [OF this] show ?case by simp
qed

lemma desired_map_swapped:
  "high_threshold g \<le> mid_threshold g \<Longrightarrow> desired_map_of g xs k \<noteq> Some COMPRESSED"
  unfolding desired_map_of_def by (rule desired_map_fold_swapped) simp_all

lemma count_planned_swapped:
  "high_threshold g \<le> mid_threshold g \<Longrightarrow> count_planned (desired_map_of g xs) ys COMPRESSED = 0"
  by (simp add: count_planned_def desired_map_swapped)

section \<open>The states a manager can be in\<close>

lemma token_len_ok_init:
  "FocusManager_init heuristic e c compr config = Inr m \<Longrightarrow> token_len_ok m"
  by (auto simp: FocusManager_init_def token_len_ok_def lens_ok_def)

lemma token_len_ok_add_message:
  "token_len_ok m \<Longrightarrow> token_len_ok (snd (add_message m r text))"
  by (simp add: add_message_def Let_def token_len_ok_def lens_ok_def)

lemma token_len_ok_build_context:
  assumes "token_len_ok m" and "build_context m q b pre = Inr (m', msgs, stats)"
  shows "token_len_ok m'"
proof -
  obtain st where run: "build_context_run m q b pre = Inr st"
    using build_context_run_total by blast
  from assms(2) have m': "m' = m\<lparr>items := its st\<rparr>"
    by (simp add: build_context_Inr [OF run])
  from build_context_run_facts(2) [OF run] assms(1) show ?thesis
    by (simp add: m' token_len_ok_def core_lens_ok [of "its st" "items m"])
qed

lemma ids_ok_init:
  "FocusManager_init heuristic e c compr config = Inr m \<Longrightarrow> ids_ok m"
  by (auto simp: FocusManager_init_def ids_ok_def)

lemma ids_ok_add_message:
  "ids_ok m \<Longrightarrow> ids_ok (snd (add_message m r text))"
  by (auto simp: add_message_def Let_def ids_ok_def sorted_wrt_append list_all_iff)

lemma ids_ok_build_context:
  assumes "ids_ok m" and "build_context m q b pre = Inr (m', msgs, stats)"
  shows "ids_ok m'"
proof -
  obtain st where run: "build_context_run m q b pre = Inr st"
    using build_context_run_total by blast
  from assms(2) have m': "m' = m\<lparr>items := its st\<rparr>"
    by (simp add: build_context_Inr [OF run])
  have "map item_id (its st) = map (fst \<circ> core) (its st)"
    by (simp add: core_def comp_def)
  also have "\<dots> = map fst (map core (items m))"
    using build_context_run_facts(2) [OF run] by (metis map_map)
  also have "\<dots> = map item_id (items m)"
    by (simp add: core_def comp_def)
  finally have eq: "map item_id (its st) = map item_id (items m)" .
  then have img: "item_id ` set (its st) = item_id ` set (items m)"
    by (metis list.set_map)
  have "\<forall>it \<in> set (its st). item_id it < next_id m"
  proof
    fix it assume "it \<in> set (its st)"
    then have "item_id it \<in> item_id ` set (items m)"
      using img by blast
    then show "item_id it < next_id m"
      using assms(1) by (auto simp: ids_ok_def list_all_iff)
  qed
  with assms(1) eq show ?thesis
    by (simp add: m' ids_ok_def list_all_iff)
qed

lemma ids_ok_distinct: "ids_ok m \<Longrightarrow> distinct (map item_id (items m))"
  by (simp add: ids_ok_def strict_sorted_iff)

section \<open>Sessions\<close>

lemma add_message_items:
  "items (snd (add_message m r text)) = items m @ [fst (add_message m r text)]"
  by (simp add: add_message_def Let_def)

lemma build_context_run_length:
  "build_context_run m q b pre = Inr st \<Longrightarrow> length (its st) = length (items m)"
  using build_context_run_facts(2) [of m q b pre st] by (metis length_map)

lemma session_keeps_memo:
  assumes "p < length (items m)" and "memo_stored (items m ! p)"
  shows "\<exists>m' cs. session m rs = Inr (m', cs) \<and> p < length (items m') \<and>
           compressed_text (items m' ! p) = compressed_text (items m ! p) \<and>
           p \<notin> fst ` set cs"
  using assms
proof (induction rs arbitrary: m)
  case Nil
  then show ?case by simp
next
  case (Cons r rs)
  show ?case
  proof (cases r)
    case (Add_message ro body)
    let ?m1 = "snd (add_message m ro body)"
    have n: "items ?m1 ! p = items m ! p" and l: "p < length (items ?m1)"
      using Cons.prems(1) by (simp_all add: add_message_items nth_append)
    from Cons.IH [of ?m1] l n Cons.prems(2) show ?thesis
      by (simp add: Add_message)
  next
    case (Build_context q b pre)
    obtain st where run: "build_context_run m q b pre = Inr st"
      using build_context_run_total by blast
    let ?m1 = "m\<lparr>items := its st\<rparr>"
    have keep: "compressed_text (its st ! p) = compressed_text (items m ! p)"
      and nocall: "p \<notin> fst ` set (calls st)"
      using build_context_run_memo [OF run Cons.prems] by simp_all
    have l: "p < length (items ?m1)"
      using Cons.prems(1) build_context_run_length [OF run] by simp
    have ms: "memo_stored (items ?m1 ! p)"
      using Cons.prems(2) keep by (simp add: memo_stored_def)
    from Cons.IH [OF l ms] obtain m' cs where
      s: "session ?m1 rs = Inr (m', cs)" and a: "p < length (items m')"
      and b: "compressed_text (items m' ! p) = compressed_text (items ?m1 ! p)"
      and c: "p \<notin> fst ` set cs"
      by blast
    have "session m (r # rs) = Inr (m', calls st @ cs)"
      by (simp add: Build_context run s)
    moreover have "compressed_text (items m' ! p) = compressed_text (items m ! p)"
      using b keep by simp
    moreover have "p \<notin> fst ` set (calls st @ cs)"
      using nocall c by auto
    ultimately show ?thesis
      using a by blast
  qed
qed

section \<open>Concrete runs\<close>

lemma split_hello:
  "py_split (ascii ''hello big world'') = [ascii ''hello'', ascii ''big'', ascii ''world'']"
  by (simp add: py_split_def ascii_def isspace_def)

lemma count_hello: "count tc_fallback (ascii ''hello big world'') = 3"
  by (simp add: count_def tc_fallback_def split_hello) (simp add: ascii_def)

lemma count_hello1: "count tc_fallback (ascii ''hello'') = 1"
  by (simp add: count_def tc_fallback_def ascii_def py_split_def isspace_def)

lemma trunc_hello:
  "truncate_to_tokens (ascii ''hello big world'') 1 tc_fallback = ascii ''hello''"
  by (simp add: truncate_to_tokens_def split_hello Let_def)
    (simp add: count_def tc_fallback_def ascii_def py_split_def isspace_def)

lemma mgr1_eq: "mgr1 = mgr0\<lparr>items := [item_empty], next_id := 2\<rparr>"
  by (simp add: mgr1_def add_message_def mgr0_def count_def emb_demo_def Let_def item_empty_def)

lemma mgr2_eq: "mgr2 = mgr0\<lparr>items := [item_hello], next_id := 2\<rparr>"
  by (simp add: mgr2_def add_message_def Let_def item_hello_def)
    (simp add: mgr0_def emb_demo_def count_hello, simp add: ascii_def)

lemma token_len_ok_mgr2: "token_len_ok mgr2"
  by (simp add: token_len_ok_def lens_ok_def mgr2_eq item_hello_def)
    (simp add: mgr0_def count_hello)

lemma ordered_items_single: "ordered_items [x] = [0]"
  by (simp add: ordered_items_def)

lemma run_mgr1:
  "build_context_run mgr1 (ascii ''hi'') 10 None =
     Inr \<lparr>its = [item_empty_packed], messages = [(ascii ''user'', [])], budget_left = 10,
          used_tokens = 0, raw_tokens = 0, compressed_tokens = 0, placeholder_tokens = 0,
          expanded_count = 0, compressed_count = 1, stub_count = 0,
          emitted = [(0, COMPRESSED)], calls = [(0, 1)]\<rparr>"
  by (simp add: build_context_run_def mgr1_eq mgr0_def item_empty_def item_empty_packed_def
      score_items_def score_item_def item_embedding_def cosine_def emb_demo_def enumerate_eq_zip
      ordered_items_single desired_map_of_def plan_def cfg_demo_def add_preamble_def pack_init_def
      pack_item_def emit_compressed_def comp_of_def compress_item_def compress_demo_def count_def
      py_int_def try_add_def Let_def)

lemma run_mgr1_again:
  "build_context_run (mgr1\<lparr>items := [item_empty_packed]\<rparr>) (ascii ''hi'') 10 None =
     Inr \<lparr>its = [item_empty_packed], messages = [(ascii ''user'', [])], budget_left = 10,
          used_tokens = 0, raw_tokens = 0, compressed_tokens = 0, placeholder_tokens = 0,
          expanded_count = 0, compressed_count = 1, stub_count = 0,
          emitted = [(0, COMPRESSED)], calls = [(0, 1)]\<rparr>"
  by (simp add: build_context_run_def mgr1_eq mgr0_def item_empty_def item_empty_packed_def
      score_items_def score_item_def item_embedding_def cosine_def emb_demo_def enumerate_eq_zip
      ordered_items_single desired_map_of_def plan_def cfg_demo_def add_preamble_def pack_init_def
      pack_item_def emit_compressed_def comp_of_def compress_item_def compress_demo_def count_def
      py_int_def try_add_def Let_def)

lemma run_mgr2:
  "build_context_run mgr2 (ascii ''hi'') 2 None =
     Inr \<lparr>its = [item_hello_packed], messages = [(ascii ''user'', ascii ''hello'')],
          budget_left = 1, used_tokens = 1, raw_tokens = 0, compressed_tokens = 1,
          placeholder_tokens = 0, expanded_count = 0, compressed_count = 1, stub_count = 0,
          emitted = [(0, COMPRESSED)], calls = [(0, 1)]\<rparr>"
proof -
  have q: "emb_demo (ascii ''hi'') = [1]"
    by (simp add: emb_demo_def ascii_def)
  show ?thesis
    by (simp add: build_context_run_def mgr2_eq mgr0_def item_hello_def item_hello_packed_def q
        score_items_def score_item_def item_embedding_def cosine_def enumerate_eq_zip
        ordered_items_single desired_map_of_def plan_def cfg_demo_def add_preamble_def pack_init_def
        pack_item_def emit_full_def emit_compressed_def comp_of_def compress_item_def
        compress_demo_def count_hello count_hello1 trunc_hello py_int_def try_add_def Let_def)
qed

text \<open>With an encoding that is not additive over words joined by spaces, a stub can
  exceed \<^verbatim>\<open>max_placeholder_tokens\<close> also when its prefix fits: \<^verbatim>\<open>truncate_to_tokens\<close>
  adds up the costs of the words, not of the joined text.\<close>

lemma stub_cost_chars:
  "count (tc mgr_chars) (stub_prefix item_abcd) = 16 \<and>
   max_placeholder_tokens (cfg mgr_chars) = 20 \<and>
   count (tc mgr_chars) (make_stub mgr_chars item_abcd) = 21"
proof -
  have p: "stub_prefix item_abcd =
             [91, 114, 101, 102, 32, 35, 49, 32, 8226, 32, 117, 115, 101, 114, 93, 32]"
    by (simp add: stub_prefix_def item_abcd_def item_hello_def str_int_def ascii_def)
  have c: "count tc_chars
             [91, 114, 101, 102, 32, 35, 49, 32, 8226, 32, 117, 115, 101, 114, 93, 32] = 16"
    by (simp add: count_def tc_chars_def)
  have t: "truncate_to_tokens (take 200 (takeWhile (\<lambda>c. c \<noteq> 10) (py_strip (content item_abcd)))) 4
             tc_chars = [97, 98, 32, 99, 100]"
    by (simp add: item_abcd_def item_hello_def ascii_def py_strip_def isspace_def
        truncate_to_tokens_def py_split_def count_def tc_chars_def Let_def)
  have "make_stub mgr_chars item_abcd =
          [91, 114, 101, 102, 32, 35, 49, 32, 8226, 32, 117, 115, 101, 114, 93, 32] @
          [97, 98, 32, 99, 100]"
    by (simp add: make_stub_def Let_def p mgr_chars_def mgr0_def cfg_demo_def c t)
  then show ?thesis
    by (simp add: p c mgr_chars_def mgr0_def cfg_demo_def) (simp add: count_def tc_chars_def)
qed

section \<open>The claims\<close>

text \<open>
  C1. For every call of \<^verbatim>\<open>build_context\<close> on a manager whose turns were stored by
  \<^verbatim>\<open>add_message\<close> (each caches the token count of its content), with any query, any
  positive budget and any optional preamble, the call returns and its stats satisfy
  \<open>stats['used'] \<le> stats['budget']\<close>.
\<close>

theorem used_le_budget:
  assumes "token_len_ok m" and "0 < budget_tokens"
  shows "\<exists>m' msgs stats u b.
           build_context m current_query budget_tokens system_preamble = Inr (m', msgs, stats) \<and>
           stats ''used'' = Some u \<and> stats ''budget'' = Some b \<and> u \<le> b"
proof -
  obtain st where run: "build_context_run m current_query budget_tokens system_preamble = Inr st"
    using build_context_run_total by blast
  let ?pc = "cost (tc m) (preamble_messages (tc m) system_preamble budget_tokens)"
  have "inv_budget (tc m) budget_tokens (budget_tokens - ?pc) ?pc st"
    using build_context_run_facts(3) [OF run] assms by simp
  moreover have "0 \<le> ?pc"
    by (simp add: preamble_messages_def count_nonneg split: option.splits)
  ultimately have "used_tokens st \<le> budget_tokens"
    using assms(2) by (simp add: inv_budget_def)
  then show ?thesis
    by (simp add: build_context_Inr [OF run])
qed

theorem used_le_budget_witness:
  "token_len_ok mgr2 \<and> (0::int) < 2 \<and>
   (\<exists>m' msgs stats u b.
      build_context mgr2 (ascii ''hi'') 2 None = Inr (m', msgs, stats) \<and>
      stats ''used'' = Some u \<and> stats ''budget'' = Some b \<and> u \<le> b)"
proof -
  have h: "(0::int) < 2" by simp
  from used_le_budget [OF token_len_ok_mgr2 h] token_len_ok_mgr2 show ?thesis
    by simp
qed

text \<open>
  C2. The claim as stated (the token costs of all emitted messages, the preamble
  message included, add up to \<open>stats['used']\<close>) fails: \<open>used_tokens\<close> is set to zero
  after the preamble has been added and counts turn messages only. On a manager
  without turns, a preamble of one token and budget 10, the output holds the preamble
  message, of cost 1, and \<open>stats['used']\<close> is 0.
\<close>

theorem preamble_not_in_used_counterexample:
  "stat (build_context mgr0 (ascii ''hi'') 10 (Some (ascii ''hi''))) ''used'' = Some 0 \<and>
   cost (tc mgr0) (context_messages (build_context mgr0 (ascii ''hi'') 10 (Some (ascii ''hi'')))) = 1"
  by (simp add: stat_def context_messages_def build_context_def build_context_run_def
      score_items_def desired_map_of_def ordered_items_def add_preamble_def pack_init_def
      try_add_def Let_def mgr0_def cost_def)
    (simp add: count_def tc_fallback_def ascii_def py_split_def isspace_def)

text \<open>
  C2, amended. For every call of \<^verbatim>\<open>build_context\<close> on a manager whose turns were
  stored by \<^verbatim>\<open>add_message\<close>, the output is the preamble message (when one is emitted)
  followed by the turn messages, and the token costs of the turn messages add up to
  \<open>stats['used']\<close>; the cost of the whole output is \<open>stats['used']\<close> plus the cost of
  the preamble message.
\<close>

theorem turn_cost_eq_used:
  assumes "token_len_ok m"
  shows "\<exists>m' msgs stats turns.
           build_context m current_query budget_tokens system_preamble = Inr (m', msgs, stats) \<and>
           msgs = preamble_messages (tc m) system_preamble budget_tokens @ turns \<and>
           stats ''used'' = Some (real_of_int (cost (tc m) turns)) \<and>
           cost (tc m) msgs =
             cost (tc m) (preamble_messages (tc m) system_preamble budget_tokens) +
             cost (tc m) turns"
proof -
  obtain st where run: "build_context_run m current_query budget_tokens system_preamble = Inr st"
    using build_context_run_total by blast
  let ?pre = "preamble_messages (tc m) system_preamble budget_tokens"
  let ?turns = "map (msg_of m (its st)) (emitted st)"
  have msgs: "messages st = ?pre @ ?turns"
    using run by (rule build_context_run_trace(1))
  have "inv_budget (tc m) budget_tokens (budget_tokens - cost (tc m) ?pre) (cost (tc m) ?pre) st"
    using build_context_run_facts(3) [OF run] assms by simp
  then have "cost (tc m) (messages st) = cost (tc m) ?pre + used_tokens st"
    by (simp add: inv_budget_def)
  then have "used_tokens st = cost (tc m) ?turns"
    by (simp add: msgs)
  then show ?thesis
    using msgs by (simp add: build_context_Inr [OF run])
qed

theorem turn_cost_eq_used_witness:
  "token_len_ok mgr2 \<and>
   (\<exists>m' msgs stats turns.
      build_context mgr2 (ascii ''hi'') 2 (Some (ascii ''hi'')) = Inr (m', msgs, stats) \<and>
      msgs = preamble_messages (tc mgr2) (Some (ascii ''hi'')) 2 @ turns \<and>
      stats ''used'' = Some (real_of_int (cost (tc mgr2) turns)) \<and>
      cost (tc mgr2) msgs =
        cost (tc mgr2) (preamble_messages (tc mgr2) (Some (ascii ''hi'')) 2) +
        cost (tc mgr2) turns)"
  using turn_cost_eq_used [OF token_len_ok_mgr2] token_len_ok_mgr2 by simp

text \<open>
  C9. For every call of \<^verbatim>\<open>build_context\<close>, the stats satisfy
  \<open>used = raw_tokens + compressed_tokens + placeholder_tokens\<close>, and
  \<open>expanded_count + compressed_count + stub_count\<close> is the number of emitted turn
  messages: the length of the output, minus one when the preamble message was
  emitted (the output then starts with it).
\<close>

theorem stats_add_up:
  "\<exists>m' msgs stats u r c p ec cc sc.
     build_context m current_query budget_tokens system_preamble = Inr (m', msgs, stats) \<and>
     stats ''used'' = Some u \<and> stats ''raw_tokens'' = Some r \<and>
     stats ''compressed_tokens'' = Some c \<and> stats ''placeholder_tokens'' = Some p \<and>
     stats ''expanded_count'' = Some ec \<and> stats ''compressed_count'' = Some cc \<and>
     stats ''stub_count'' = Some sc \<and>
     u = r + c + p \<and>
     ec + cc + sc =
       real (length msgs) -
       (if preamble_messages (tc m) system_preamble budget_tokens = [] then 0 else 1) \<and>
     take (length (preamble_messages (tc m) system_preamble budget_tokens)) msgs =
       preamble_messages (tc m) system_preamble budget_tokens"
proof -
  obtain st where run: "build_context_run m current_query budget_tokens system_preamble = Inr st"
    using build_context_run_total by blast
  let ?k = "length (preamble_messages (tc m) system_preamble budget_tokens)"
  have "inv_counts ?k st"
    using run by (rule build_context_run_facts(1))
  then have a: "used_tokens st = raw_tokens st + compressed_tokens st + placeholder_tokens st"
    and b: "expanded_count st + compressed_count st + stub_count st = int (length (emitted st))"
    and c: "length (messages st) = ?k + length (emitted st)"
    by (simp_all add: inv_counts_def)
  have "real_of_int (expanded_count st + compressed_count st + stub_count st) =
          real (length (messages st)) - real ?k"
    using b c by simp
  moreover have "real_of_int (used_tokens st) =
          real_of_int (raw_tokens st) + real_of_int (compressed_tokens st) +
          real_of_int (placeholder_tokens st)"
    using a by simp
  moreover have "real ?k =
          (if preamble_messages (tc m) system_preamble budget_tokens = [] then 0 else 1)"
    by (simp add: preamble_messages_def split: option.splits)
  moreover have "take ?k (messages st) = preamble_messages (tc m) system_preamble budget_tokens"
    by (simp add: build_context_run_trace(1) [OF run])
  ultimately show ?thesis
    by (simp add: build_context_Inr [OF run] stats_of_def)
qed

text \<open>
  C10. An empty \<^verbatim>\<open>system_preamble\<close> is treated as absent: the call returns exactly
  what it returns without a preamble, no preamble message is emitted, although the
  empty text costs 0 tokens and would fit any budget that is not negative.
\<close>

theorem empty_preamble_is_absent:
  "build_context m current_query budget_tokens (Some []) =
     build_context m current_query budget_tokens None \<and>
   preamble_messages (tc m) (Some []) budget_tokens = [] \<and>
   count (tc m) [] = 0"
  by (simp add: build_context_def build_context_run_def add_preamble_def
      preamble_messages_def count_def)

text \<open>
  C3. For every call of \<^verbatim>\<open>build_context\<close> and every turn, the fidelity achieved is
  never more expensive than the desired one. Each turn is emitted at most once; for
  each emitted turn the fidelity written to its \<^verbatim>\<open>compression_state\<close> is the one
  it was emitted at, and its expense is at most that of \<^verbatim>\<open>desired_map[it.id]\<close>
  (FULL above COMPRESSED above PLACEHOLDER): planned FULL ends as any of the three,
  planned COMPRESSED never as FULL, planned PLACEHOLDER only as PLACEHOLDER. A turn
  that is not emitted is absent from the output and keeps the
  \<^verbatim>\<open>compression_state\<close> it had.
\<close>

theorem cascade_only_steps_down:
  "\<exists>st msgs stats.
     build_context_run m current_query budget_tokens system_preamble = Inr st \<and>
     build_context m current_query budget_tokens system_preamble =
       Inr (m\<lparr>items := its st\<rparr>, msgs, stats) \<and>
     distinct (map fst (emitted st)) \<and>
     (\<forall>e \<in> set (emitted st).
        fst e < length (items m) \<and>
        compression_state (its st ! fst e) = snd e \<and>
        (\<exists>d. desired_map_of (cfg m) (score_items m (embedder m current_query))
                (item_id (items m ! fst e)) = Some d \<and>
             expense (snd e) \<le> expense d)) \<and>
     (\<forall>k < length (items m).
        k \<notin> fst ` set (emitted st) \<longrightarrow>
        compression_state (its st ! k) = compression_state (items m ! k))"
proof -
  obtain st where run: "build_context_run m current_query budget_tokens system_preamble = Inr st"
    using build_context_run_total by blast
  let ?xs = "score_items m (embedder m current_query)"
  let ?dm = "desired_map_of (cfg m) ?xs"
  have sub: "set (map fst (emitted st)) \<subseteq> {0..<length (items m)}"
    using run by (rule build_context_run_trace(2))
  have tr: "trace_ok m ?dm ?xs (its st) (emitted st)"
    using run by (rule build_context_run_trace(3))
  have a: "distinct (map fst (emitted st))"
    using tr by (simp add: trace_ok_def)
  have b: "\<forall>e \<in> set (emitted st).
        fst e < length (items m) \<and>
        compression_state (its st ! fst e) = snd e \<and>
        (\<exists>d. ?dm (item_id (items m ! fst e)) = Some d \<and> expense (snd e) \<le> expense d)"
  proof
    fix e assume e: "e \<in> set (emitted st)"
    with sub have lt: "fst e < length (items m)" by auto
    from tr e have "compression_state (its st ! fst e) = snd e"
      and "\<exists>d. ?dm (item_id (?xs ! fst e)) = Some d \<and> expense (snd e) \<le> expense d"
      by (simp_all add: trace_ok_def)
    with lt show "fst e < length (items m) \<and>
        compression_state (its st ! fst e) = snd e \<and>
        (\<exists>d. ?dm (item_id (items m ! fst e)) = Some d \<and> expense (snd e) \<le> expense d)"
      by (simp add: score_items_nth_fields)
  qed
  have c: "\<forall>k < length (items m).
        k \<notin> fst ` set (emitted st) \<longrightarrow>
        compression_state (its st ! k) = compression_state (items m ! k)"
    using tr by (simp add: trace_ok_def score_items_nth_fields)
  from a b c show ?thesis
    by (simp add: run build_context_Inr [OF run])
qed

theorem cascade_only_steps_down_witness:
  "\<exists>st. build_context_run mgr2 (ascii ''hi'') 2 None = Inr st \<and>
        emitted st = [(0, COMPRESSED)] \<and>
        compression_state (its st ! 0) = COMPRESSED \<and>
        (\<exists>d. desired_map_of (cfg mgr2) (score_items mgr2 (embedder mgr2 (ascii ''hi'')))
                (item_id (items mgr2 ! 0)) = Some d \<and>
             expense COMPRESSED \<le> expense d)"
proof -
  from cascade_only_steps_down [of mgr2 "ascii ''hi''" 2 None]
  obtain st where run: "build_context_run mgr2 (ascii ''hi'') 2 None = Inr st"
    and em: "\<forall>e \<in> set (emitted st).
        fst e < length (items mgr2) \<and>
        compression_state (its st ! fst e) = snd e \<and>
        (\<exists>d. desired_map_of (cfg mgr2) (score_items mgr2 (embedder mgr2 (ascii ''hi'')))
                (item_id (items mgr2 ! fst e)) = Some d \<and>
             expense (snd e) \<le> expense d)"
    by blast
  from run have e: "emitted st = [(0, COMPRESSED)]"
    by (auto simp: run_mgr2)
  with em run show ?thesis
    by simp
qed

text \<open>
  C4. For every call of \<^verbatim>\<open>build_context\<close> on a manager whose turns have distinct
  ids, the output is the preamble message (when one is emitted) followed by the
  messages of the emitted turns, and the ids of the emitted turns are strictly
  ascending along the output, whatever their scores.
\<close>

theorem chronological_emission:
  assumes "distinct (map item_id (items m))"
  shows "\<exists>st m' msgs stats.
           build_context_run m current_query budget_tokens system_preamble = Inr st \<and>
           build_context m current_query budget_tokens system_preamble = Inr (m', msgs, stats) \<and>
           msgs = preamble_messages (tc m) system_preamble budget_tokens @
                  map (msg_of m (items m')) (emitted st) \<and>
           sorted_wrt (<) (map (\<lambda>e. item_id (items m' ! fst e)) (emitted st))"
proof -
  obtain st where run: "build_context_run m current_query budget_tokens system_preamble = Inr st"
    using build_context_run_total by blast
  have "messages st = preamble_messages (tc m) system_preamble budget_tokens @
          map (msg_of m (its st)) (emitted st)"
    using run by (rule build_context_run_trace(1))
  moreover have "sorted_wrt (<) (map (\<lambda>e. item_id (its st ! fst e)) (emitted st))"
    using run assms by (rule build_context_run_sorted)
  ultimately show ?thesis
    by (simp add: run build_context_Inr [OF run])
qed

theorem chronological_emission_witness:
  "distinct (map item_id (items mgr3)) \<and>
   (\<exists>st m' msgs stats.
      build_context_run mgr3 (ascii ''hi'') 20 (Some (ascii ''Be brief.'')) = Inr st \<and>
      build_context mgr3 (ascii ''hi'') 20 (Some (ascii ''Be brief.'')) = Inr (m', msgs, stats) \<and>
      msgs = preamble_messages (tc mgr3) (Some (ascii ''Be brief.'')) 20 @
             map (msg_of mgr3 (items m')) (emitted st) \<and>
      sorted_wrt (<) (map (\<lambda>e. item_id (items m' ! fst e)) (emitted st)))"
proof -
  have h: "distinct (map item_id (items mgr3))"
    by (simp add: mgr3_def add_message_def Let_def mgr2_eq item_hello_def)
  from chronological_emission [OF h] h show ?thesis
    by blast
qed

text \<open>
  C5. For every stored turn at zero-based position \<open>p\<close> of \<open>n\<close>, the score that
  \<^verbatim>\<open>build_context\<close> computes (it is left in \<^verbatim>\<open>last_score\<close>) is
  \<open>max(0, similarity) * (0.25 + 0.75 * 0.5 ^ (turnsAgo / max(1, recency_half_life)))\<close>
  with \<open>turnsAgo = (n - 1) - p\<close>, the similarity being the cosine of the query embedding
  and the embedding of the turn; for the most recent turn the score is
  \<open>max(0, similarity)\<close>. Floats are read as reals.
\<close>

theorem score_formula:
  assumes "p < length (items m)"
  shows "\<exists>m' msgs stats.
           build_context m current_query budget_tokens system_preamble = Inr (m', msgs, stats) \<and>
           last_score (items m' ! p) =
             max 0 (cosine (embedder m current_query) (item_embedding m (items m ! p))) *
             (0.25 + 0.75 * 0.5 powr
                (real (length (items m) - 1 - p) / real_of_int (max 1 (recency_half_life (cfg m))))) \<and>
           (p = length (items m) - 1 \<longrightarrow>
              last_score (items m' ! p) =
                max 0 (cosine (embedder m current_query) (item_embedding m (items m ! p))))"
proof -
  obtain st where run: "build_context_run m current_query budget_tokens system_preamble = Inr st"
    using build_context_run_total by blast
  have ta: "real_of_int (int (length (items m)) - 1 - int p) = real (length (items m) - 1 - p)"
    using assms by (simp add: of_nat_diff)
  have sc: "last_score (its st ! p) =
          last_score (score_item m (embedder m current_query) (length (items m)) p (items m ! p))"
    using run assms by (rule build_context_run_scores)
  have f: "last_score (score_item m (embedder m current_query) (length (items m)) p (items m ! p)) =
             max 0 (cosine (embedder m current_query) (item_embedding m (items m ! p))) *
             (0.25 + 0.75 * 0.5 powr
                (real_of_int (int (length (items m)) - 1 - int p) /
                 real_of_int (max 1 (recency_half_life (cfg m)))))"
    by (simp add: score_item_def Let_def)
  have s: "last_score (its st ! p) =
             max 0 (cosine (embedder m current_query) (item_embedding m (items m ! p))) *
             (0.25 + 0.75 * 0.5 powr
                (real (length (items m) - 1 - p) / real_of_int (max 1 (recency_half_life (cfg m)))))"
    using sc f ta by (simp only:)
  define X :: real where
    "X = 0.5 powr (real (length (items m) - 1 - p) / real_of_int (max 1 (recency_half_life (cfg m))))"
  define M where
    "M = max 0 (cosine (embedder m current_query) (item_embedding m (items m ! p)))"
  have s': "last_score (its st ! p) = M * (0.25 + 0.75 * X)"
    using s unfolding X_def M_def .
  have "last_score (its st ! p) = M" if "p = length (items m) - 1"
  proof -
    from that have "length (items m) - 1 - p = 0" by simp
    then have "X = 1" by (simp add: X_def)
    with s' show ?thesis by simp
  qed
  then have "p = length (items m) - 1 \<longrightarrow> last_score (its st ! p) = M"
    by (rule impI)
  then have last: "p = length (items m) - 1 \<longrightarrow>
      last_score (its st ! p) =
        max 0 (cosine (embedder m current_query) (item_embedding m (items m ! p)))"
    unfolding M_def .
  have it: "items (m\<lparr>items := its st\<rparr>) = its st"
    by simp
  show ?thesis
  proof (intro exI conjI)
    show "build_context m current_query budget_tokens system_preamble =
            Inr (m\<lparr>items := its st\<rparr>, messages st,
                 stats_of budget_tokens st
                   (desired_map_of (cfg m) (score_items m (embedder m current_query)))
                   (score_items m (embedder m current_query)))"
      using run by (rule build_context_Inr)
    show "last_score (items (m\<lparr>items := its st\<rparr>) ! p) =
             max 0 (cosine (embedder m current_query) (item_embedding m (items m ! p))) *
             (0.25 + 0.75 * 0.5 powr
                (real (length (items m) - 1 - p) / real_of_int (max 1 (recency_half_life (cfg m)))))"
      unfolding it by (rule s)
    show "p = length (items m) - 1 \<longrightarrow>
            last_score (items (m\<lparr>items := its st\<rparr>) ! p) =
              max 0 (cosine (embedder m current_query) (item_embedding m (items m ! p)))"
      unfolding it by (rule last)
  qed
qed

theorem score_formula_witness:
  "(0::nat) < length (items mgr2) \<and>
   (\<exists>m' msgs stats.
      build_context mgr2 (ascii ''hi'') 2 None = Inr (m', msgs, stats) \<and>
      last_score (items m' ! 0) = 1)"
proof -
  have h: "(0::nat) < length (items mgr2)"
    by (simp add: mgr2_eq)
  have c: "cosine (embedder mgr2 (ascii ''hi'')) (item_embedding mgr2 (items mgr2 ! 0)) = 1"
    by (simp add: mgr2_eq mgr0_def item_hello_def item_embedding_def cosine_def emb_demo_def ascii_def)
  have z: "(0::nat) = length (items mgr2) - 1"
    by (simp add: mgr2_eq)
  from score_formula [OF h, of "ascii ''hi''" 2 None]
  obtain m' msgs stats where r: "build_context mgr2 (ascii ''hi'') 2 None = Inr (m', msgs, stats)"
    and l: "0 = length (items mgr2) - 1 \<longrightarrow>
              last_score (items m' ! 0) =
                max 0 (cosine (embedder mgr2 (ascii ''hi'')) (item_embedding mgr2 (items mgr2 ! 0)))"
    by (elim exE conjE)
  from l z have "last_score (items m' ! 0) = max 0 (1::real)"
    by (simp only: c)
  then have "last_score (items m' ! 0) = 1"
    by simp
  with r h show ?thesis
    by blast
qed

text \<open>
  C6. The claim as stated (every stub costs at most \<^verbatim>\<open>max_placeholder_tokens\<close> when
  that is positive) fails: when the prefix alone leaves no room, \<^verbatim>\<open>_make_stub\<close>
  returns the prefix, whatever it costs. With \<^verbatim>\<open>max_placeholder_tokens = 2\<close> and the
  whitespace counter, the stub of turn 1 of role \<open>user\<close> is the prefix
  \<open>[ref #1 \<bullet> user]\<close>, of four tokens.
\<close>

theorem stub_exceeds_small_limit_counterexample:
  "max_placeholder_tokens (cfg mgr_small) = 2 \<and>
   count (tc mgr_small) (make_stub mgr_small item_hello) = 4"
proof -
  have p: "stub_prefix item_hello =
             [91, 114, 101, 102, 32, 35, 49, 32, 8226, 32, 117, 115, 101, 114, 93, 32]"
    by (simp add: stub_prefix_def item_hello_def str_int_def ascii_def)
  have c: "count tc_fallback
             [91, 114, 101, 102, 32, 35, 49, 32, 8226, 32, 117, 115, 101, 114, 93, 32] = 4"
    by (simp add: count_def tc_fallback_def py_split_def isspace_def)
  have s: "py_strip [91, 114, 101, 102, 32, 35, 49, 32, 8226, 32, 117, 115, 101, 114, 93, 32] =
             [91, 114, 101, 102, 32, 35, 49, 32, 8226, 32, 117, 115, 101, 114, 93]"
    by (simp add: py_strip_def isspace_def)
  have c': "count tc_fallback
             [91, 114, 101, 102, 32, 35, 49, 32, 8226, 32, 117, 115, 101, 114, 93] = 4"
    by (simp add: count_def tc_fallback_def py_split_def isspace_def)
  have "make_stub mgr_small item_hello =
          [91, 114, 101, 102, 32, 35, 49, 32, 8226, 32, 117, 115, 101, 114, 93]"
    by (simp add: make_stub_def Let_def p mgr_small_def mgr0_def cfg_small_def c s)
  then show ?thesis
    by (simp add: mgr_small_def mgr0_def cfg_small_def c')
qed

text \<open>
  C6, amended. With the whitespace token counter (no tiktoken encoding), the token
  cost of the stub of any turn, under any configuration, is at most the larger of
  \<^verbatim>\<open>max_placeholder_tokens\<close> and the cost of the reference prefix: it is at most
  \<^verbatim>\<open>max_placeholder_tokens\<close> whenever the prefix costs no more than that. When the
  prefix costs \<^verbatim>\<open>max_placeholder_tokens\<close> or more, the stub is the stripped prefix
  alone and costs what the prefix costs.
\<close>

theorem stub_cost_bound:
  assumes "enc (tc m) = None"
  shows "count (tc m) (make_stub m it)
           \<le> max (max_placeholder_tokens (cfg m)) (count (tc m) (stub_prefix it)) \<and>
         (max_placeholder_tokens (cfg m) \<le> count (tc m) (stub_prefix it) \<longrightarrow>
            make_stub m it = py_strip (stub_prefix it) \<and>
            count (tc m) (make_stub m it) = count (tc m) (stub_prefix it))"
proof
  show "count (tc m) (make_stub m it)
          \<le> max (max_placeholder_tokens (cfg m)) (count (tc m) (stub_prefix it))"
    using assms by (rule stub_cost_le)
  show "max_placeholder_tokens (cfg m) \<le> count (tc m) (stub_prefix it) \<longrightarrow>
          make_stub m it = py_strip (stub_prefix it) \<and>
          count (tc m) (make_stub m it) = count (tc m) (stub_prefix it)"
  proof
    assume "max_placeholder_tokens (cfg m) \<le> count (tc m) (stub_prefix it)"
    then have "make_stub m it = py_strip (stub_prefix it)"
      by (simp add: make_stub_def Let_def)
    then show "make_stub m it = py_strip (stub_prefix it) \<and>
          count (tc m) (make_stub m it) = count (tc m) (stub_prefix it)"
      using count_strip_prefix [OF assms, of it] by simp
  qed
qed

theorem stub_cost_bound_witness:
  "enc (tc mgr2) = None \<and>
   count (tc mgr2) (make_stub mgr2 item_hello)
     \<le> max (max_placeholder_tokens (cfg mgr2)) (count (tc mgr2) (stub_prefix item_hello))"
proof -
  have h: "enc (tc mgr2) = None"
    by (simp add: mgr2_eq mgr0_def tc_fallback_def)
  from stub_cost_bound [OF h, of item_hello] h show ?thesis
    by blast
qed

text \<open>
  C7. The claim as stated (a compressed text, once stored for a turn, is never
  computed again) fails for a stored text that is empty:
  \<^verbatim>\<open>it.compressed_text or compress_item(it)\<close> takes the empty string as absent. A turn
  with empty content, planned COMPRESSED (\<^verbatim>\<open>mid_threshold = 0\<close>), has the empty text
  stored by the first call, and the second call invokes the compressor for it again.
\<close>

theorem empty_memo_recomputed_counterexample:
  "session mgr1 [Build_context (ascii ''hi'') 10 None] =
     Inr (mgr1\<lparr>items := [item_empty_packed]\<rparr>, [(0, 1)]) \<and>
   compressed_text item_empty_packed = Some [] \<and>
   session mgr1 [Build_context (ascii ''hi'') 10 None, Build_context (ascii ''hi'') 10 None] =
     Inr (mgr1\<lparr>items := [item_empty_packed]\<rparr>, [(0, 1), (0, 1)])"
proof -
  have "session mgr1 [Build_context (ascii ''hi'') 10 None] =
          Inr (mgr1\<lparr>items := [item_empty_packed]\<rparr>, [(0, 1)])"
    by (simp add: run_mgr1)
  moreover have "compressed_text item_empty_packed = Some []"
    by (simp add: item_empty_packed_def)
  moreover have "session mgr1
          [Build_context (ascii ''hi'') 10 None, Build_context (ascii ''hi'') 10 None] =
          Inr (mgr1\<lparr>items := [item_empty_packed]\<rparr>, [(0, 1), (0, 1)])"
    by (simp add: run_mgr1 run_mgr1_again)
  ultimately show ?thesis
    by blast
qed

text \<open>
  C7, amended. Once a turn holds a stored compressed text that is not empty, every
  subsequent \<^verbatim>\<open>build_context\<close> call, with any query, budget and preamble and with any
  \<^verbatim>\<open>add_message\<close> calls in between, leaves that text as it is and never invokes the
  compressor for that turn. (A stored text that is empty counts as absent.)
\<close>

theorem stored_memo_is_reused:
  assumes "p < length (items m)" and "memo_stored (items m ! p)"
  shows "\<exists>m' cs. session m rs = Inr (m', cs) \<and> p < length (items m') \<and>
           compressed_text (items m' ! p) = compressed_text (items m ! p) \<and>
           p \<notin> fst ` set cs"
  using assms by (rule session_keeps_memo)

theorem stored_memo_is_reused_witness:
  "(0::nat) < length (items (mgr2\<lparr>items := [item_hello_packed]\<rparr>)) \<and>
   memo_stored (items (mgr2\<lparr>items := [item_hello_packed]\<rparr>) ! 0) \<and>
   (\<exists>m' cs.
      session (mgr2\<lparr>items := [item_hello_packed]\<rparr>)
        [Build_context (ascii ''other words'') 100 None,
         Add_message (ascii ''assistant'') (ascii ''ok''),
         Build_context (ascii ''hi'') 1 (Some (ascii ''Be brief.''))] = Inr (m', cs) \<and>
      compressed_text (items m' ! 0) = Some (ascii ''hello'') \<and>
      0 \<notin> fst ` set cs)"
proof -
  let ?m = "mgr2\<lparr>items := [item_hello_packed]\<rparr>"
  have h1: "(0::nat) < length (items ?m)"
    by simp
  have h2: "memo_stored (items ?m ! 0)"
    by (simp add: memo_stored_def item_hello_packed_def ascii_def)
  have c: "compressed_text (items ?m ! 0) = Some (ascii ''hello'')"
    by (simp add: item_hello_packed_def)
  from stored_memo_is_reused [OF h1 h2] h1 h2 c show ?thesis
    by (simp only:) blast
qed

text \<open>
  C8. The claim as stated (an invalid \<^verbatim>\<open>FocusConfig\<close>, such as
  \<^verbatim>\<open>high_threshold <= mid_threshold\<close>, is rejected at construction) fails:
  \<^verbatim>\<open>FocusManager.__init__\<close> stores the config it is given and checks nothing. A
  config with \<^verbatim>\<open>high_threshold = 0.30\<close> and \<^verbatim>\<open>mid_threshold = 0.55\<close> is accepted.
\<close>

theorem swapped_thresholds_accepted_counterexample:
  "high_threshold cfg_swapped \<le> mid_threshold cfg_swapped \<and>
   FocusManager_init (\<lambda>c. compress_demo) emb_demo tc_fallback None (Some cfg_swapped) =
     Inr (mgr0\<lparr>cfg := cfg_swapped\<rparr>)"
  by (simp add: FocusManager_init_def mgr0_def cfg_swapped_def)

text \<open>
  C8, amended. Constructing a \<^verbatim>\<open>FocusManager\<close> performs no validation: every
  \<^verbatim>\<open>FocusConfig\<close> value, also one with \<^verbatim>\<open>high_threshold <= mid_threshold\<close>, is
  accepted and stored as given (no turns yet, \<^verbatim>\<open>next_id = 1\<close>). Such a config is then
  used as it is: on any manager that holds a config with
  \<^verbatim>\<open>high_threshold <= mid_threshold\<close>, whatever its turns, every \<^verbatim>\<open>build_context\<close> call
  that returns leaves the config in place and reports
  \<open>stats['items_planned_compressed'] = 0\<close>, that is, no turn is planned COMPRESSED.
  Nothing is said here about whether a call returns.
\<close>

theorem init_accepts_any_config:
  "(\<exists>m. FocusManager_init heuristic e c compr (Some g) = Inr m \<and>
         cfg m = g \<and> items m = [] \<and> next_id m = 1) \<and>
   (high_threshold g \<le> mid_threshold g \<longrightarrow>
      (\<forall>m q b pre m' msgs stats.
         cfg m = g \<longrightarrow>
         build_context m q b pre = Inr (m', msgs, stats) \<longrightarrow>
         cfg m' = g \<and> stats ''items_planned_compressed'' = Some 0))"
proof
  show "\<exists>m. FocusManager_init heuristic e c compr (Some g) = Inr m \<and>
          cfg m = g \<and> items m = [] \<and> next_id m = 1"
    by (simp add: FocusManager_init_def)
  show "high_threshold g \<le> mid_threshold g \<longrightarrow>
      (\<forall>m q b pre m' msgs stats.
         cfg m = g \<longrightarrow>
         build_context m q b pre = Inr (m', msgs, stats) \<longrightarrow>
         cfg m' = g \<and> stats ''items_planned_compressed'' = Some 0)"
  proof (intro impI allI)
    fix m q b pre m' msgs stats
    assume sw: "high_threshold g \<le> mid_threshold g" and g: "cfg m = g"
      and r: "build_context m q b pre = Inr (m', msgs, stats)"
    obtain st where run: "build_context_run m q b pre = Inr st"
      using build_context_run_total by blast
    let ?xs = "score_items m (embedder m q)"
    from r have m': "m' = m\<lparr>items := its st\<rparr>"
      and st: "stats = stats_of b st (desired_map_of (cfg m) ?xs) ?xs"
      by (simp_all add: build_context_Inr [OF run])
    have "count_planned (desired_map_of (cfg m) ?xs) ?xs COMPRESSED = 0"
      using sw g by (simp add: count_planned_swapped)
    then have "stats ''items_planned_compressed'' = Some 0"
      by (simp add: st stats_of_def)
    then show "cfg m' = g \<and> stats ''items_planned_compressed'' = Some 0"
      using g by (simp add: m')
  qed
qed

theorem init_accepts_any_config_witness:
  "high_threshold cfg_swapped \<le> mid_threshold cfg_swapped \<and>
   cfg mgr_swapped = cfg_swapped \<and>
   (\<exists>m' msgs stats.
      build_context mgr_swapped (ascii ''hi'') 10 None = Inr (m', msgs, stats) \<and>
      cfg m' = cfg_swapped \<and> stats ''items_planned_compressed'' = Some 0)"
proof -
  have h: "high_threshold cfg_swapped \<le> mid_threshold cfg_swapped"
    by (simp add: cfg_swapped_def)
  have g: "cfg mgr_swapped = cfg_swapped"
    by (simp add: mgr_swapped_def add_message_def Let_def)
  obtain st where run: "build_context_run mgr_swapped (ascii ''hi'') 10 None = Inr st"
    using build_context_run_total by blast
  let ?xs = "score_items mgr_swapped (embedder mgr_swapped (ascii ''hi''))"
  let ?stats = "stats_of 10 st (desired_map_of (cfg mgr_swapped) ?xs) ?xs"
  have r: "build_context mgr_swapped (ascii ''hi'') 10 None =
             Inr (mgr_swapped\<lparr>items := its st\<rparr>, messages st, ?stats)"
    using run by (rule build_context_Inr)
  from init_accepts_any_config [of "\<lambda>c. compress_demo" emb_demo tc_fallback None cfg_swapped] h
  have "\<forall>m q b pre m' msgs stats.
         cfg m = cfg_swapped \<longrightarrow>
         build_context m q b pre = Inr (m', msgs, stats) \<longrightarrow>
         cfg m' = cfg_swapped \<and> stats ''items_planned_compressed'' = Some 0"
    by (elim conjE) (erule mp)
  with g r have "cfg (mgr_swapped\<lparr>items := its st\<rparr>) = cfg_swapped \<and>
      ?stats ''items_planned_compressed'' = Some 0"
    by blast
  with h g r show ?thesis
    by blast
qed

end
